theory Spec2Isabelle
  imports Complex_Main
begin

section \<open>Values shared by the whole development\<close>

text \<open>
  Python exceptions are values. \<open>AssertionError\<close> is what a failed \<open>assert\<close> raises,
  \<open>IndexError\<close> an out-of-range numpy index, \<open>ZeroDivisionError\<close> a division or
  modulo by zero, \<open>ValueError\<close> a shape mismatch, \<open>RecursionError\<close> an exhausted recursion
  limit, \<open>OverflowError\<close> a conversion between \<open>int\<close> and \<open>float\<close> that has no
  finite result, and \<open>CannotBuildTreeException\<close> is the exception class declared in
  \<open>tree_builder.py\<close> (it carries its message). \<open>NonTermination\<close> is not an exception:
  it is the outcome of a \<open>while\<close> loop that never ends.
\<close>

datatype error =
    AssertionError
  | IndexError
  | ZeroDivisionError
  | ValueError
  | RecursionError
  | NonTermination
  | CannotBuildTreeException string
  | OverflowError

text \<open>
  A numpy float is a real number or one of the three special values. In the array
  operations below finite values are kept exact; the special values follow IEEE 754 as
  numpy applies it. The scalar arithmetic of Python itself is rounded: see \<open>binary64\<close>.
\<close>

datatype npfloat = Fin real | PInf | NInf | NaN

fun np_neg :: "npfloat \<Rightarrow> npfloat" where
  "np_neg (Fin a) = Fin (- a)"
| "np_neg PInf = NInf"
| "np_neg NInf = PInf"
| "np_neg NaN = NaN"

fun np_add :: "npfloat \<Rightarrow> npfloat \<Rightarrow> npfloat" where
  "np_add (Fin a) (Fin b) = Fin (a + b)"
| "np_add NaN _ = NaN"
| "np_add _ NaN = NaN"
| "np_add PInf NInf = NaN"
| "np_add NInf PInf = NaN"
| "np_add PInf _ = PInf"
| "np_add _ PInf = PInf"
| "np_add NInf _ = NInf"
| "np_add _ NInf = NInf"

definition np_sub :: "npfloat \<Rightarrow> npfloat \<Rightarrow> npfloat" where
  "np_sub a b = np_add a (np_neg b)"

fun np_mul :: "npfloat \<Rightarrow> npfloat \<Rightarrow> npfloat" where
  "np_mul (Fin a) (Fin b) = Fin (a * b)"
| "np_mul NaN _ = NaN"
| "np_mul _ NaN = NaN"
| "np_mul (Fin a) PInf = (if a = 0 then NaN else if 0 < a then PInf else NInf)"
| "np_mul (Fin a) NInf = (if a = 0 then NaN else if 0 < a then NInf else PInf)"
| "np_mul PInf (Fin b) = (if b = 0 then NaN else if 0 < b then PInf else NInf)"
| "np_mul NInf (Fin b) = (if b = 0 then NaN else if 0 < b then NInf else PInf)"
| "np_mul PInf PInf = PInf"
| "np_mul PInf NInf = NInf"
| "np_mul NInf PInf = NInf"
| "np_mul NInf NInf = PInf"

text \<open>
  Float division: numpy does not raise on a zero divisor, it warns and yields
  \<open>nan\<close> for \<open>0/0\<close> and a signed infinity otherwise.
\<close>

fun np_div :: "npfloat \<Rightarrow> npfloat \<Rightarrow> npfloat" where
  "np_div (Fin a) (Fin b) =
     (if b = 0 then (if a = 0 then NaN else if 0 < a then PInf else NInf) else Fin (a / b))"
| "np_div NaN _ = NaN"
| "np_div _ NaN = NaN"
| "np_div (Fin a) PInf = Fin 0"
| "np_div (Fin a) NInf = Fin 0"
| "np_div PInf (Fin b) = (if 0 \<le> b then PInf else NInf)"
| "np_div NInf (Fin b) = (if 0 \<le> b then NInf else PInf)"
| "np_div PInf PInf = NaN"
| "np_div PInf NInf = NaN"
| "np_div NInf PInf = NaN"
| "np_div NInf NInf = NaN"

fun np_exp :: "npfloat \<Rightarrow> npfloat" where
  "np_exp (Fin a) = Fin (exp a)"
| "np_exp PInf = PInf"
| "np_exp NInf = Fin 0"
| "np_exp NaN = NaN"

fun np_log :: "npfloat \<Rightarrow> npfloat" where
  "np_log (Fin a) = (if 0 < a then Fin (ln a) else if a = 0 then NInf else NaN)"
| "np_log PInf = PInf"
| "np_log NInf = NaN"
| "np_log NaN = NaN"

text \<open>Comparisons: every comparison with \<open>nan\<close> is false.\<close>

fun np_le :: "npfloat \<Rightarrow> npfloat \<Rightarrow> bool" where
  "np_le (Fin a) (Fin b) = (a \<le> b)"
| "np_le NaN _ = False"
| "np_le _ NaN = False"
| "np_le NInf _ = True"
| "np_le _ PInf = True"
| "np_le PInf _ = False"
| "np_le _ NInf = False"

definition np_ge :: "npfloat \<Rightarrow> npfloat \<Rightarrow> bool" where
  "np_ge a b = np_le b a"

definition np_lt :: "npfloat \<Rightarrow> npfloat \<Rightarrow> bool" where
  "np_lt a b = (np_le a b \<and> a \<noteq> b)"

definition np_gt :: "npfloat \<Rightarrow> npfloat \<Rightarrow> bool" where
  "np_gt a b = np_lt b a"

definition np_eq :: "npfloat \<Rightarrow> npfloat \<Rightarrow> bool" where
  "np_eq a b = (a \<noteq> NaN \<and> a = b)"

text \<open>\<open>np.maximum\<close> propagates \<open>nan\<close>.\<close>

definition np_maximum :: "npfloat \<Rightarrow> npfloat \<Rightarrow> npfloat" where
  "np_maximum a b = (if a = NaN \<or> b = NaN then NaN else if np_le a b then b else a)"

definition np_isnan :: "npfloat \<Rightarrow> bool" where
  "np_isnan a = (a = NaN)"

definition np_isinf :: "npfloat \<Rightarrow> bool" where
  "np_isinf a = (a = PInf \<or> a = NInf)"

definition np_sum :: "npfloat list \<Rightarrow> npfloat" where
  "np_sum xs = foldl np_add (Fin 0) xs"

text \<open>
  \<open>np.isclose(a, b)\<close> and \<open>np.allclose\<close> with numpy's default tolerances
  (\<open>rtol = 1e-5\<close>, \<open>atol = 1e-8\<close>): \<open>|a - b| \<le> atol + rtol * |b|\<close> on finite
  values, equality on infinities, false on \<open>nan\<close>.
\<close>

fun np_isclose :: "npfloat \<Rightarrow> npfloat \<Rightarrow> bool" where
  "np_isclose (Fin a) (Fin b) = (\<bar>a - b\<bar> \<le> 1 / 10 ^ 8 + (1 / 10 ^ 5) * \<bar>b\<bar>)"
| "np_isclose PInf PInf = True"
| "np_isclose NInf NInf = True"
| "np_isclose _ _ = False"

text \<open>
  Python 3's \<open>round\<close> on a float with no digits argument rounds half to even and returns
  an int.
\<close>

definition py_round :: "real \<Rightarrow> int" where
  "py_round x =
     (let f = \<lfloor>x\<rfloor>; d = x - of_int f
      in if d < 1 / 2 then f else if 1 / 2 < d then f + 1 else if even f then f else f + 1)"

text \<open>A slice \<open>xs[d:]\<close>: a negative start counts from the end.\<close>

definition py_slice_from :: "'a list \<Rightarrow> int \<Rightarrow> 'a list" where
  "py_slice_from xs d =
     (if 0 \<le> d then drop (nat d) xs else drop (length xs - nat (- d)) xs)"


section \<open>Python's scalar arithmetic\<close>

text \<open>
  A Python \<open>float\<close> is an IEEE 754 binary64 number, and an arithmetic operation on
  floats returns the float nearest to the exact result, a tie going to the even
  significand. \<open>binary64 x\<close> is that float for the exact result \<open>x\<close>. With \<open>e\<close> the
  binary exponent of \<open>x\<close> (not below \<open>-1022\<close>, where the subnormal numbers start) the
  floats around \<open>x\<close> are the multiples of \<open>ulp x = 2 ^ (e - 52)\<close>, so \<open>x\<close> is rounded
  to a multiple of \<open>ulp x\<close>, half to even; a rounded value of magnitude \<open>2 ^ 1024\<close> or
  more is an infinity.
\<close>

definition float_exponent :: "real \<Rightarrow> int" where
  "float_exponent x = (if x = 0 then - 1022 else max \<lfloor>log 2 \<bar>x\<bar>\<rfloor> (- 1022))"

definition ulp :: "real \<Rightarrow> real" where
  "ulp x = 2 powr (of_int (float_exponent x) - 52)"

definition binary64 :: "real \<Rightarrow> npfloat" where
  "binary64 x =
     (let y = of_int (py_round (x / ulp x)) * ulp x
      in if 2 ^ 1024 \<le> \<bar>y\<bar> then (if 0 < y then PInf else NInf) else Fin y)"

text \<open>
  \<open>round(x)\<close> on a float: \<open>OverflowError\<close> on an infinity, \<open>ValueError\<close> on
  \<open>nan\<close>.
\<close>

fun py_round_float :: "npfloat \<Rightarrow> error + int" where
  "py_round_float (Fin x) = Inr (py_round x)"
| "py_round_float PInf = Inl OverflowError"
| "py_round_float NInf = Inl OverflowError"
| "py_round_float NaN = Inl ValueError"

text \<open>
  The conversion of an \<open>int\<close> operand to \<open>float\<close> in mixed arithmetic, and the true
  division \<open>a / b\<close> of two \<open>int\<close>s: both are correctly rounded, and both raise
  \<open>OverflowError\<close> when the result is too large for a float.
\<close>

definition py_float_of_int :: "int \<Rightarrow> error + real" where
  "py_float_of_int n =
     (case binary64 (of_int n) of Fin y \<Rightarrow> Inr y | _ \<Rightarrow> Inl OverflowError)"

definition py_true_div :: "int \<Rightarrow> int \<Rightarrow> error + real" where
  "py_true_div a b =
     (if b = 0 then Inl ZeroDivisionError
      else case binary64 (of_int a / of_int b) of Fin y \<Rightarrow> Inr y | _ \<Rightarrow> Inl OverflowError)"
section \<open>numpy arrays as lists\<close>

type_synonym matrix = "int list list"

text \<open>
  A two-dimensional array is the list of its rows; the number of columns is the length
  of the first row. Reads are written with \<open>!\<close> where the index is in range by an
  earlier check of the same function, and behind an explicit \<open>IndexError\<close> otherwise.
\<close>

definition ncols :: "'a list list \<Rightarrow> nat" where
  "ncols m = (case m of [] \<Rightarrow> 0 | r # _ \<Rightarrow> length r)"

definition flatnonzero :: "int list \<Rightarrow> nat list" where
  "flatnonzero row = [j \<leftarrow> [0..<length row]. row ! j \<noteq> 0]"

definition fill_diagonal :: "'a list list \<Rightarrow> 'a \<Rightarrow> 'a list list" where
  "fill_diagonal m v = map (\<lambda>i. (m ! i)[i := v]) [0..<length m]"

definition np_diag :: "'a list list \<Rightarrow> 'a list" where
  "np_diag m = map (\<lambda>i. m ! i ! i) [0..<min (length m) (ncols m)]"

definition column :: "'a list list \<Rightarrow> nat \<Rightarrow> 'a list" where
  "column m j = map (\<lambda>row. row ! j) m"

definition sum_axis0 :: "int list list \<Rightarrow> int list" where
  "sum_axis0 m = map (\<lambda>j. sum_list (column m j)) [0..<ncols m]"

definition sum_all :: "int list list \<Rightarrow> int" where
  "sum_all m = sum_list (map sum_list m)"

definition set_entry :: "'a list list \<Rightarrow> nat \<Rightarrow> nat \<Rightarrow> 'a \<Rightarrow> 'a list list" where
  "set_entry m i j v = m[i := (m ! i)[j := v]]"

definition set_row :: "'a list list \<Rightarrow> nat \<Rightarrow> 'a list \<Rightarrow> 'a list list" where
  "set_row m i r = m[i := r]"

definition set_column :: "'a list list \<Rightarrow> nat \<Rightarrow> 'a list \<Rightarrow> 'a list list" where
  "set_column m j c = map (\<lambda>(row, v). row[j := v]) (zip m c)"

definition fill_column :: "'a list list \<Rightarrow> nat \<Rightarrow> 'a \<Rightarrow> 'a list list" where
  "fill_column m j v = map (\<lambda>row. row[j := v]) m"

text \<open>Results of a comprehension or a \<open>for\<close> loop, in order: the first exception wins.\<close>

fun sequence :: "(error + 'a) list \<Rightarrow> error + 'a list" where
  "sequence [] = Inr []"
| "sequence (Inl e # rs) = Inl e"
| "sequence (Inr x # rs) = (case sequence rs of Inl e \<Rightarrow> Inl e | Inr xs \<Rightarrow> Inr (x # xs))"

section \<open>Ancestry: \<open>make_ancestral_from_adj\<close> (\<open>common.py\<close>)\<close>

text \<open>
  \<open>_find_desc\<close> recurses into the rows of the children. The first argument is the
  recursion depth still available; Python raises \<open>RecursionError\<close> when it is used up.
  \<open>np.sum(children, axis=0)\<close> of an empty list is the scalar 0, which broadcasts.
\<close>

fun find_desc :: "matrix \<Rightarrow> nat \<Rightarrow> nat \<Rightarrow> int list \<Rightarrow> error + int list" where
  "find_desc adj 0 I vec = Inl RecursionError"
| "find_desc adj (Suc limit) I vec =
     (if sum_list vec = 0 then Inr vec
      else
        case sequence
               (map (\<lambda>idx. if idx < length adj then find_desc adj limit idx (adj ! idx)
                           else Inl IndexError)
                    [idx \<leftarrow> [0..<length vec]. idx \<noteq> I \<and> vec ! idx = 1]) of
          Inl e \<Rightarrow> Inl e
        | Inr children \<Rightarrow>
            (let child_sum = (if children = [] then replicate (length vec) 0
                              else sum_axis0 children);
                 self_and_child = map2 (+) vec child_sum
             in Inr (map (\<lambda>x. if 1 < x then 1 else x) self_and_child)))"

definition make_ancestral_from_adj :: "nat \<Rightarrow> matrix \<Rightarrow> error + matrix" where
  "make_ancestral_from_adj limit adj =
     (let K = length adj
      in sequence
           (map (\<lambda>k. case find_desc adj limit k (adj ! k) of
                        Inl e \<Rightarrow> Inl e
                      | Inr row \<Rightarrow> if length row = K then Inr row else Inl ValueError)
                [0..<K]))"

section \<open>Tree checks and the tree mutator (\<open>tree_sampler.py\<close>)\<close>

text \<open>
  \<open>_ensure_valid_tree\<close>. The Python stack is a list whose last element is the top; here
  the head is the top, so \<open>stack += C\<close> puts the reversed \<open>C\<close> in front. The loop ends on
  every input: each round either fails an assertion or visits a new row index.
\<close>

function ensure_valid_tree_loop :: "matrix \<Rightarrow> nat list \<Rightarrow> nat set \<Rightarrow> error + nat set" where
  "ensure_valid_tree_loop adj [] visited = Inr visited"
| "ensure_valid_tree_loop adj (P # stack) visited =
     (if P \<in> visited then Inl AssertionError
      else if length adj \<le> P then Inl IndexError
      else ensure_valid_tree_loop adj (rev (flatnonzero (adj ! P)) @ stack) (insert P visited))"
  by pat_completeness auto
termination
proof (relation "measure (\<lambda>(adj, stack, visited). card ({..<length adj} - visited))", goal_cases)
  case 1
  show ?case by simp
next
  case (2 adj P stack visited)
  have eq: "{..<length adj} - insert P visited = ({..<length adj} - visited) - {P}"
    by blast
  have mem: "P \<in> {..<length adj} - visited"
    using 2 by simp
  have fin: "finite ({..<length adj} - visited)"
    by simp
  have "card ({..<length adj} - insert P visited) < card ({..<length adj} - visited)"
    unfolding eq using fin mem by (rule card_Diff1_less)
  then show ?case
    by simp
qed

definition ensure_valid_tree :: "matrix \<Rightarrow> error + unit" where
  "ensure_valid_tree adj =
     (let K = length adj
      in if \<not> (\<forall>x \<in> set (np_diag adj). x = 1) then Inl AssertionError
         else case ensure_valid_tree_loop (fill_diagonal adj 0) [0] {} of
                Inl e \<Rightarrow> Inl e
              | Inr visited \<Rightarrow> if visited = set [0..<K] then Inr () else Inl AssertionError)"

text \<open>
  \<open>_modify_tree\<close> copies both arguments and then edits the copies in place. To say what
  happens to the arguments, arrays live in a store: a reference is a number, \<open>np.copy\<close>
  allocates a new cell, an assignment into an array replaces the content of its cell.
\<close>

record store =
  cells :: "nat \<rightharpoonup> matrix"
  fresh :: nat

definition deref :: "store \<Rightarrow> nat \<Rightarrow> matrix" where
  "deref h r = the (cells h r)"

definition np_copy :: "store \<Rightarrow> nat \<Rightarrow> store \<times> nat" where
  "np_copy h r = (h\<lparr>cells := (cells h)(fresh h \<mapsto> deref h r), fresh := Suc (fresh h)\<rparr>, fresh h)"

definition update_at :: "store \<Rightarrow> nat \<Rightarrow> (matrix \<Rightarrow> matrix) \<Rightarrow> store" where
  "update_at h r f = h\<lparr>cells := (cells h)(r \<mapsto> f (deref h r))\<rparr>"

definition modify_tree_store :: "store \<Rightarrow> nat \<Rightarrow> nat \<Rightarrow> nat \<Rightarrow> nat \<Rightarrow> error + (nat \<times> store)" where
  "modify_tree_store h adj_ref anc_ref A B =
     (let K = length (deref h adj_ref)
      in if \<not> (A < K \<and> 0 < B \<and> B < K) then Inl AssertionError
         else if \<not> A \<noteq> B then Inl AssertionError
         else
           (let (h1, adj') = np_copy h adj_ref;
                (h2, anc') = np_copy h1 anc_ref
            in if np_diag (deref h2 adj') \<noteq> replicate K 1 then Inl AssertionError
               else if sum_all (deref h2 adj') \<noteq> int K + (int K - 1) then Inl AssertionError
               else if sort (sum_axis0 (deref h2 adj')) \<noteq> 1 # replicate (K - 1) 2
                 then Inl AssertionError
               else
                 (let h3 = update_at h2 adj' (\<lambda>m. fill_diagonal m 0);
                      h4 = update_at h3 anc' (\<lambda>m. fill_diagonal m 0)
                  in if \<not> (A < length (deref h4 anc') \<and> B < length (deref h4 anc')
                            \<and> A < ncols (deref h4 anc') \<and> B < ncols (deref h4 anc'))
                       then Inl IndexError
                     else if deref h4 anc' ! B ! A \<noteq> 0 then
                       (let adj_BA = deref h4 adj' ! B ! A
                        in if \<not> (deref h4 anc' ! A ! B = deref h4 adj' ! A ! B
                                  \<and> deref h4 adj' ! A ! B = 0) then Inl AssertionError
                           else
                             (let h5 = (if adj_BA \<noteq> 0
                                        then update_at h4 adj' (\<lambda>m. set_entry m B A 0) else h4);
                                  acol = column (deref h5 adj') A;
                                  bcol = column (deref h5 adj') B;
                                  arow = deref h5 adj' ! A;
                                  brow = deref h5 adj' ! B;
                                  h6 = update_at h5 adj' (\<lambda>m. set_row m A brow);
                                  h7 = update_at h6 adj' (\<lambda>m. set_row m B arow);
                                  h8 = update_at h7 adj' (\<lambda>m. set_column m A bcol);
                                  h9 = update_at h8 adj' (\<lambda>m. set_column m B acol);
                                  h10 = (if adj_BA \<noteq> 0
                                         then update_at h9 adj' (\<lambda>m. set_entry m A B 1) else h9);
                                  h11 = update_at h10 adj' (\<lambda>m. fill_diagonal m 1)
                              in Inr (adj', h11)))
                     else
                       (let h5 = update_at h4 adj' (\<lambda>m. fill_column m B 0);
                            h6 = update_at h5 adj' (\<lambda>m. set_entry m A B 1);
                            h7 = update_at h6 adj' (\<lambda>m. fill_diagonal m 1)
                        in Inr (adj', h7)))))"

text \<open>
  The same call on two array values: the arguments are put into a store of their own
  and the returned array is read back.
\<close>

definition modify_tree :: "matrix \<Rightarrow> matrix \<Rightarrow> nat \<Rightarrow> nat \<Rightarrow> error + matrix" where
  "modify_tree adj_m anc_m A B =
     (case modify_tree_store \<lparr>cells = [0 \<mapsto> adj_m, 1 \<mapsto> anc_m], fresh = 2\<rparr> 0 1 A B of
        Inl e \<Rightarrow> Inl e
      | Inr (r, h) \<Rightarrow> Inr (deref h r))"

section \<open>Relation classes (\<open>common.py\<close>) and the tree builder (\<open>tree_builder.py\<close>)\<close>

text \<open>
  \<open>Models\<close> gives each name of \<open>Models._all\<close> its position as an integer attribute.
\<close>

definition Models_all :: "string list" where
  "Models_all = [''garbage'', ''cocluster'', ''A_B'', ''B_A'', ''diff_branches'']"

definition garbage :: int where "garbage = 0"
definition cocluster :: int where "cocluster = 1"
definition A_B :: int where "A_B = 2"
definition B_A :: int where "B_A = 3"
definition diff_branches :: int where "diff_branches = 4"

text \<open>\<open>'%s' % n\<close> for a natural number: its decimal digits.\<close>

function str_nat :: "nat \<Rightarrow> string" where
  "str_nat n =
     (if n < 10 then [char_of (48 + n)]
      else str_nat (n div 10) @ [char_of (48 + n mod 10)])"
  by pat_completeness auto
termination
  by (relation "measure id") auto

definition np_eye :: "nat \<Rightarrow> matrix" where
  "np_eye N = map (\<lambda>i. map (\<lambda>j. if i = j then 1 else 0) [0..<N]) [0..<N]"

text \<open>
  The inner loop of \<open>make_adj\<close>, over \<open>J\<close> in \<open>reversed(range(I))\<close>, with the state
  \<open>(adj, I_placed)\<close>. The message of the exception indexes the tuple \<open>Models._all\<close>,
  where an index from \<open>-5\<close> to \<open>-1\<close> counts from the end and any other index outside
  \<open>0..4\<close> raises \<open>IndexError\<close>.
\<close>

fun make_adj_inner ::
  "int list list \<Rightarrow> nat \<Rightarrow> nat list \<Rightarrow> matrix \<times> bool \<Rightarrow> error + (matrix \<times> bool)" where
  "make_adj_inner relations I [] st = Inr st"
| "make_adj_inner relations I (J # Js) (adj, I_placed) =
     (if relations ! I ! J = B_A then
        (if \<not> I_placed then make_adj_inner relations I Js (set_entry adj J I 1, True)
         else make_adj_inner relations I Js (adj, I_placed))
      else if relations ! I ! J = diff_branches then
        make_adj_inner relations I Js (adj, I_placed)
      else
        (let v = relations ! I ! J
         in if - 5 \<le> v \<and> v < 5
            then Inl (CannotBuildTreeException
                        (''Unexpected relation for ('' @ str_nat I @ '','' @ str_nat J @ ''): ''
                         @ Models_all ! nat (v mod 5)))
            else Inl IndexError))"

fun make_adj_outer :: "int list list \<Rightarrow> nat list \<Rightarrow> matrix \<Rightarrow> error + matrix" where
  "make_adj_outer relations [] adj = Inr adj"
| "make_adj_outer relations (I # Is) adj =
     (case make_adj_inner relations I (rev [0..<I]) (adj, False) of
        Inl e \<Rightarrow> Inl e
      | Inr (adj', I_placed) \<Rightarrow> make_adj_outer relations Is adj')"

definition make_adj :: "int list list \<Rightarrow> error + matrix" where
  "make_adj relations =
     (let N = length relations
      in if \<not> (\<forall>row \<in> set relations. length row = N) then Inl AssertionError
         else if N < 2 then Inl IndexError
         else if relations ! 1 ! 0 \<noteq> B_A
           then Inl (CannotBuildTreeException ''First subclone is not child of clonal node'')
         else make_adj_outer relations [2..<N] (set_entry (np_eye N) 0 1 1))"

text \<open>
  Notions for the statements about the builder: the outcome is the cannot-construct-tree
  exception; the relation matrix is square with at least two rows and entries among the
  five classes; the entry \<open>[I][J]\<close> is neither \<open>B_A\<close> nor \<open>diff_branches\<close>.
\<close>

definition is_cannot_build :: "error + 'a \<Rightarrow> bool" where
  "is_cannot_build r = (\<exists>msg. r = Inl (CannotBuildTreeException msg))"

definition well_formed_relations :: "int list list \<Rightarrow> bool" where
  "well_formed_relations relations =
     (2 \<le> length relations
      \<and> (\<forall>row \<in> set relations. length row = length relations \<and> (\<forall>v \<in> set row. 0 \<le> v \<and> v < 5)))"

definition unexpected :: "int list list \<Rightarrow> nat \<Rightarrow> nat \<Rightarrow> bool" where
  "unexpected relations I J =
     (relations ! I ! J \<noteq> B_A \<and> relations ! I ! J \<noteq> diff_branches)"

section \<open>Trees as graphs\<close>

text \<open>
  The graph of an adjacency matrix with its diagonal removed: an edge from \<open>i\<close> to \<open>j\<close>
  says that \<open>i\<close> is the parent of \<open>j\<close>.
\<close>

definition edges :: "matrix \<Rightarrow> (nat \<times> nat) set" where
  "edges a = {(i, j). i < length a \<and> j < length a \<and> i \<noteq> j \<and> a ! i ! j = 1}"

definition is_square01 :: "matrix \<Rightarrow> bool" where
  "is_square01 a = (\<forall>row \<in> set a. length row = length a \<and> (\<forall>x \<in> set row. x = 0 \<or> x = 1))"

text \<open>
  The adjacency invariants, as the code itself checks them: a square 0/1 matrix, the
  diagonal all 1, the sorted column sums equal to one 1 followed by 2s (the assertion of
  \<open>_modify_tree\<close>), and the traversal of \<open>_ensure_valid_tree\<close> from node 0 visiting
  every node exactly once.
\<close>

definition adjacency_invariants :: "matrix \<Rightarrow> bool" where
  "adjacency_invariants a =
     (is_square01 a
      \<and> np_diag a = replicate (length a) 1
      \<and> sort (sum_axis0 a) = 1 # replicate (length a - 1) 2
      \<and> ensure_valid_tree a = Inr ())"

text \<open>
  The same as a property of the graph: there is a node, no edge enters node 0, no node has
  two parents, and every node is reached from node 0.
\<close>

definition is_tree :: "matrix \<Rightarrow> bool" where
  "is_tree a =
     (0 < length a \<and> is_square01 a \<and> (\<forall>i < length a. a ! i ! i = 1)
      \<and> (\<forall>i. (i, 0) \<notin> edges a)
      \<and> (\<forall>i i' j. (i, j) \<in> edges a \<longrightarrow> (i', j) \<in> edges a \<longrightarrow> i = i')
      \<and> (\<forall>j < length a. (0, j) \<in> (edges a)\<^sup>*))"

text \<open>
  The ancestry a matrix should have: entry \<open>[i][j]\<close> is 1 when \<open>i = j\<close> or a path leads
  from \<open>i\<close> to \<open>j\<close>, and 0 otherwise.
\<close>

definition is_ancestry_of :: "matrix \<Rightarrow> matrix \<Rightarrow> bool" where
  "is_ancestry_of a z =
     (length z = length a
      \<and> (\<forall>i < length a. length (z ! i) = length a
            \<and> (\<forall>j < length a. z ! i ! j = (if i = j \<or> (i, j) \<in> (edges a)\<^sup>+ then 1 else 0))))"

text \<open>
  Notions used in the proofs: the graph read off the rows of a matrix by \<open>flatnonzero\<close>,
  the row of the descendants of a node, and the matrix of these rows.
\<close>

definition row_graph :: "matrix \<Rightarrow> (nat \<times> nat) set" where
  "row_graph m = {(P, c). P < length m \<and> c \<in> set (flatnonzero (m ! P))}"

definition desc_row :: "matrix \<Rightarrow> nat \<Rightarrow> int list" where
  "desc_row a I = map (\<lambda>j. if (I, j) \<in> (edges a)\<^sup>* then 1 else 0) [0..<length a]"

definition closure_matrix :: "matrix \<Rightarrow> matrix" where
  "closure_matrix a = map (desc_row a) [0..<length a]"

text \<open>
  Notions used in the proofs about \<open>_modify_tree\<close>: the array the call computes as a
  function of the contents of its two arguments; square shape; the exchange of two node
  names; the matrix with the names \<open>A\<close> and \<open>B\<close> exchanged; the matrix with \<open>B\<close> cut from
  its parent and put under \<open>A\<close>.
\<close>

definition modify_tree_result :: "matrix \<Rightarrow> matrix \<Rightarrow> nat \<Rightarrow> nat \<Rightarrow> error + matrix" where
  "modify_tree_result a z A B =
     (let K = length a
      in if \<not> (A < K \<and> 0 < B \<and> B < K) then Inl AssertionError
         else if \<not> A \<noteq> B then Inl AssertionError
         else if np_diag a \<noteq> replicate K 1 then Inl AssertionError
         else if sum_all a \<noteq> int K + (int K - 1) then Inl AssertionError
         else if sort (sum_axis0 a) \<noteq> 1 # replicate (K - 1) 2 then Inl AssertionError
         else
           (let a1 = fill_diagonal a 0; z1 = fill_diagonal z 0
            in if \<not> (A < length z1 \<and> B < length z1 \<and> A < ncols z1 \<and> B < ncols z1)
                 then Inl IndexError
               else if z1 ! B ! A \<noteq> 0 then
                 (if \<not> (z1 ! A ! B = a1 ! A ! B \<and> a1 ! A ! B = 0) then Inl AssertionError
                  else
                    (let a2 = (if a1 ! B ! A \<noteq> 0 then set_entry a1 B A 0 else a1);
                         a3 = set_row (set_row a2 A (a2 ! B)) B (a2 ! A);
                         a4 = set_column (set_column a3 A (column a2 B)) B (column a2 A);
                         a5 = (if a1 ! B ! A \<noteq> 0 then set_entry a4 A B 1 else a4)
                     in Inr (fill_diagonal a5 1)))
               else Inr (fill_diagonal (set_entry (fill_column a1 B 0) A B 1) 1)))"

definition sqK :: "'a list list \<Rightarrow> nat \<Rightarrow> bool" where
  "sqK m K = (length m = K \<and> (\<forall>i < K. length (m ! i) = K))"

definition swap_nodes :: "nat \<Rightarrow> nat \<Rightarrow> nat \<Rightarrow> nat" where
  "swap_nodes A B i = (if i = A then B else if i = B then A else i)"

definition relabelled :: "matrix \<Rightarrow> nat \<Rightarrow> nat \<Rightarrow> matrix" where
  "relabelled a A B =
     map (\<lambda>i. map (\<lambda>j. a ! swap_nodes A B i ! swap_nodes A B j) [0..<length a]) [0..<length a]"

definition reattached :: "matrix \<Rightarrow> nat \<Rightarrow> nat \<Rightarrow> matrix" where
  "reattached a A B =
     map (\<lambda>i. map (\<lambda>j. if i = j then 1 else if j = B then (if i = A then 1 else 0) else a ! i ! j)
                [0..<length a]) [0..<length a]"

section \<open>The relation model and its log transform (\<open>tree_sampler.py\<close>)\<close>

text \<open>
  \<open>Mutrel\<close> is the pair of a three-dimensional array \<open>rels[a][b][class]\<close> and the list of
  cluster names, as \<open>tree_sampler.py\<close> constructs and reads it.
\<close>

record Mutrel =
  rels :: "npfloat list list list"
  vids :: "string list"

text \<open>
  An assignment to a selection of entries of a three-dimensional array: the entry at
  \<open>[i][j][c]\<close> becomes \<open>f i j c x\<close>, where \<open>x\<close> is its old value.
\<close>

definition map_idx3 ::
  "(nat \<Rightarrow> nat \<Rightarrow> nat \<Rightarrow> 'a \<Rightarrow> 'b) \<Rightarrow> 'a list list list \<Rightarrow> 'b list list list" where
  "map_idx3 f arr =
     map (\<lambda>i. map (\<lambda>j. map (\<lambda>c. f i j c (arr ! i ! j ! c))
                             [0..<length (arr ! i ! j)])
                   [0..<length (arr ! i)])
         [0..<length arr]"

text \<open>\<open>scipy.special.logsumexp\<close> over one axis: the log of the sum of the exponentials.\<close>

definition logsumexp :: "npfloat list \<Rightarrow> npfloat" where
  "logsumexp xs = np_log (np_sum (map np_exp xs))"

definition valid_models :: "nat list" where
  "valid_models = [nat A_B, nat B_A, nat diff_branches]"

definition invalid_models :: "nat list" where
  "invalid_models = [nat cocluster, nat garbage]"

definition alpha :: real where
  "alpha = 1 / 1000"

text \<open>
  \<open>_make_data_logmutrel\<close>, one array assignment after the other. The class axis is
  indexed up to 4 and the diagonal up to \<open>K - 1\<close> on both leading axes; a shorter axis
  raises \<open>IndexError\<close>.
\<close>

definition make_data_logmutrel :: "Mutrel \<Rightarrow> error + Mutrel" where
  "make_data_logmutrel mutrel =
     (let K = length (rels mutrel);
          logrels0 = map_idx3 (\<lambda>i j c x. NaN) (rels mutrel)
      in if \<exists>row \<in> set (rels mutrel). \<exists>cell \<in> set row. length cell < 5 then Inl IndexError
         else
           (let logrels1 = map_idx3 (\<lambda>i j c x. if c \<in> set invalid_models then NInf else x) logrels0;
                logrels2 = map_idx3 (\<lambda>i j c x. if c \<in> set valid_models
                                        then np_log (np_add (rels mutrel ! i ! j ! c) (Fin alpha))
                                        else x) logrels1
            in if \<exists>row \<in> set (rels mutrel). length row < K then Inl IndexError
               else
                 (let logrels3 = map_idx3 (\<lambda>i j c x. if i = j then NInf else x) logrels2;
                      logrels4 = map_idx3 (\<lambda>i j c x. if i = j \<and> c = nat cocluster then Fin 0 else x)
                                   logrels3;
                      logrels5 = map_idx3 (\<lambda>i j c x. if c \<in> set valid_models
                                              then np_sub x (np_log (Fin (1 + real (length valid_models) * alpha)))
                                              else x) logrels4
                  in if \<not> (\<forall>row \<in> set logrels5. \<forall>cell \<in> set row.
                               np_isclose (Fin 0) (logsumexp cell))
                       then Inl AssertionError
                     else if \<exists>row \<in> set logrels5. \<exists>cell \<in> set row. \<exists>x \<in> set cell. np_isnan x
                       then Inl AssertionError
                     else Inr \<lparr>rels = logrels5, vids = vids mutrel\<rparr>)))"

text \<open>
  Notions for the statements about the log transform: the value of a finite float; a
  relation model of shape \<open>K \<times> K \<times> 5\<close> whose entries are finite and not negative; a model
  in which, for every pair of different clusters, the three valid classes carry the whole
  probability; the probability the log model gives to the valid classes of a cell; and
  the entry the code computes at \<open>[i][j][c]\<close>.
\<close>

fun the_fin :: "npfloat \<Rightarrow> real" where
  "the_fin (Fin x) = x"
| "the_fin _ = 0"

definition relation_model :: "Mutrel \<Rightarrow> bool" where
  "relation_model m =
     (\<forall>i < length (rels m). length (rels m ! i) = length (rels m)
        \<and> (\<forall>j < length (rels m). length (rels m ! i ! j) = 5
              \<and> (\<forall>c < 5. \<exists>p. rels m ! i ! j ! c = Fin p \<and> 0 \<le> p)))"

definition valid_classes_total :: "Mutrel \<Rightarrow> bool" where
  "valid_classes_total m =
     (\<forall>i < length (rels m). \<forall>j < length (rels m). i \<noteq> j \<longrightarrow>
        the_fin (rels m ! i ! j ! 2) + the_fin (rels m ! i ! j ! 3) + the_fin (rels m ! i ! j ! 4) = 1)"

definition valid_mass :: "npfloat list \<Rightarrow> npfloat" where
  "valid_mass cell = np_sum (map (\<lambda>c. np_exp (cell ! c)) valid_models)"

definition logrel_entry :: "Mutrel \<Rightarrow> nat \<Rightarrow> nat \<Rightarrow> nat \<Rightarrow> npfloat" where
  "logrel_entry m i j c =
     (if c \<in> set valid_models then
        np_sub (if i = j then NInf else np_log (np_add (rels m ! i ! j ! c) (Fin alpha)))
               (np_log (Fin (1 + 3 * alpha)))
      else if i = j \<and> c = nat cocluster then Fin 0
      else if i = j then NInf
      else if c \<in> set invalid_models then NInf
      else NaN)"

section \<open>The sampler's data\<close>

text \<open>
  \<open>TreeSample\<close> is the named tuple of \<open>tree_sampler.py\<close>; the type of the frequency
  matrix is left open, since the frequency fitter is outside the repository's sources.
\<close>

record 'p TreeSample =
  adj :: matrix
  anc :: matrix
  depth_frac :: "npfloat list"
  phi :: 'p
  llh_phi :: real

text \<open>
  The process-global random state of \<open>numpy.random\<close> is passed explicitly. The three
  library operations the sampler calls are fields of a record: \<open>seed\<close> builds a new
  state from an integer, \<open>choice\<close> draws an index under a weight vector, \<open>uniform\<close>
  draws from \<open>[0, 1)\<close>.
\<close>

record 'g np_random =
  np_random_seed :: "int \<Rightarrow> 'g"
  np_random_choice :: "npfloat list \<Rightarrow> 'g \<Rightarrow> nat \<times> 'g"
  np_random_uniform :: "'g \<Rightarrow> real \<times> 'g"

section \<open>The chain runner: \<open>_run_chain\<close>\<close>

text \<open>
  One Metropolis-Hastings transition, the body of the loop of \<open>_run_chain\<close> up to the
  choice of \<open>samp\<close>. \<open>gen\<close> stands for \<open>_generate_new_sample\<close> closed over the data; it
  returns the candidate and the two log proposal probabilities.
\<close>

type_synonym ('p, 'g) proposer =
  "'p TreeSample \<Rightarrow> 'g \<Rightarrow> error + ('p TreeSample \<times> npfloat \<times> npfloat \<times> 'g)"

definition log_p_transition ::
  "'p TreeSample \<Rightarrow> 'p TreeSample \<Rightarrow> npfloat \<Rightarrow> npfloat \<Rightarrow> npfloat" where
  "log_p_transition new_samp old_samp log_p_new_given_old log_p_old_given_new =
     np_add (Fin (llh_phi new_samp - llh_phi old_samp))
            (np_sub log_p_old_given_new log_p_new_given_old)"

definition mh_step ::
  "'g np_random \<Rightarrow> ('p, 'g) proposer \<Rightarrow> 'p TreeSample \<Rightarrow> 'g
     \<Rightarrow> error + ('p TreeSample \<times> bool \<times> 'g)" where
  "mh_step R gen old_samp g =
     (case gen old_samp g of
        Inl e \<Rightarrow> Inl e
      | Inr (new_samp, log_p_new_given_old, log_p_old_given_new, g1) \<Rightarrow>
          (let lpt = log_p_transition new_samp old_samp log_p_new_given_old log_p_old_given_new;
               (U, g2) = np_random_uniform R g1;
               accept = np_ge lpt (np_log (Fin U));
               samp = (if accept then new_samp else old_samp)
           in Inr (samp, accept, g2)))"

text \<open>
  The loop \<open>for I in range(1, nsamples)\<close>, over the list of the remaining indices. The
  state is \<open>(samps, old_samp, accepted, g)\<close>. An exception comes with the index \<open>I\<close> of
  the iteration that raised it.
\<close>

fun chain_loop ::
  "'g np_random \<Rightarrow> ('p, 'g) proposer \<Rightarrow> int \<Rightarrow> nat list
     \<Rightarrow> 'p TreeSample list \<times> 'p TreeSample \<times> nat \<times> 'g
     \<Rightarrow> (error \<times> nat) + ('p TreeSample list \<times> 'p TreeSample \<times> nat \<times> 'g)" where
  "chain_loop R gen record_every [] st = Inr st"
| "chain_loop R gen record_every (I # Is) (samps, old_samp, accepted, g) =
     (case mh_step R gen old_samp g of
        Inl e \<Rightarrow> Inl (e, I)
      | Inr (samp, accept, g2) \<Rightarrow>
          if record_every = 0 then Inl (ZeroDivisionError, I)
          else chain_loop R gen record_every Is
                 ((if int I mod record_every = 0 then samps @ [samp] else samps),
                  samp,
                  (if accept then accepted + 1 else accepted),
                  g2))"

text \<open>
  \<open>_run_chain\<close>. \<open>init\<close> stands for the lines before the loop that build the first
  sample from the seed (\<open>_make_data_logmutrel\<close>, \<open>calc_binom_params\<close>, \<open>_init_chain\<close>);
  \<open>g_in\<close> is the random state of the process that runs the chain. \<open>progress\<close> says
  whether a progress queue was passed. The result comes with the number of items the
  call has put on that queue (one after the first sample, one at the start of each
  iteration) and with the random state it leaves behind.

  \<open>thinned_frac\<close> is the value of the float passed. \<open>1 / thinned_frac\<close> is a float
  division, \<open>(nsamples - 1) / record_every\<close> and \<open>accepted / (nsamples - 1)\<close> are true
  divisions of \<open>int\<close>s; the last one comes after the loop and before the assertion on
  the number of samples.
\<close>

definition run_chain ::
  "'g np_random \<Rightarrow> (int \<Rightarrow> 'g \<Rightarrow> error + ('p TreeSample \<times> 'g)) \<Rightarrow> ('p, 'g) proposer
     \<Rightarrow> nat \<Rightarrow> real \<Rightarrow> int \<Rightarrow> bool \<Rightarrow> 'g
     \<Rightarrow> (error + (matrix list \<times> 'p list \<times> real list)) \<times> nat \<times> 'g" where
  "run_chain R init gen nsamples thinned_frac seed progress g_in =
     (if \<not> 0 < nsamples then (Inl AssertionError, 0, g_in)
      else case init seed g_in of
        Inl e \<Rightarrow> (Inl e, 0, g_in)
      | Inr (samp0, g0) \<Rightarrow>
          if \<not> (0 < thinned_frac \<and> thinned_frac \<le> 1)
            then (Inl AssertionError, (if progress then 1 else 0), g0)
          else
            (case py_round_float (binary64 (1 / thinned_frac)) of
               Inl e \<Rightarrow> (Inl e, (if progress then 1 else 0), g0)
             | Inr record_every \<Rightarrow>
                 (case py_true_div (int nsamples - 1) record_every of
                    Inl e \<Rightarrow> (Inl e, (if progress then 1 else 0), g0)
                  | Inr ratio \<Rightarrow>
                      (let expected_total_trees = 1 + \<lfloor>ratio\<rfloor>
                       in case chain_loop R gen record_every [1..<nsamples]
                                 ([samp0], samp0, 0, g0) of
                            Inl (e, I) \<Rightarrow> (Inl e, (if progress then I + 1 else 0), g0)
                          | Inr (samps, old_samp, accepted, g1) \<Rightarrow>
                              (case py_true_div (int accepted) (int nsamples - 1) of
                                 Inl e \<Rightarrow> (Inl e, (if progress then nsamples else 0), g1)
                               | Inr accept_rate \<Rightarrow>
                                   if int (length samps) \<noteq> expected_total_trees
                                     then (Inl AssertionError,
                                           (if progress then nsamples else 0), g1)
                                   else (Inr (map adj samps, map phi samps, map llh_phi samps),
                                         (if progress then nsamples else 0), g1))))))"

text \<open>
  The sequence of current samples of a chain, as a function of the iteration index:
  index 0 is the initialization sample, index \<open>I\<close> the value of \<open>samp\<close> after the
  \<open>I\<close>-th transition.
\<close>

primrec chain_state ::
  "'g np_random \<Rightarrow> ('p, 'g) proposer \<Rightarrow> 'p TreeSample \<times> 'g \<Rightarrow> nat
     \<Rightarrow> error + ('p TreeSample \<times> 'g)" where
  "chain_state R gen sg 0 = Inr sg"
| "chain_state R gen sg (Suc n) =
     (case chain_state R gen sg n of
        Inl e \<Rightarrow> Inl e
      | Inr (s, g) \<Rightarrow>
          (case mh_step R gen s g of
             Inl e \<Rightarrow> Inl e
           | Inr (s', a, g') \<Rightarrow> Inr (s', g')))"

definition state_at ::
  "'g np_random \<Rightarrow> ('p, 'g) proposer \<Rightarrow> 'p TreeSample \<times> 'g \<Rightarrow> nat \<Rightarrow> 'p TreeSample" where
  "state_at R gen sg I = fst (projr (chain_state R gen sg I))"

section \<open>The orchestrator: \<open>sample_trees\<close>\<close>

text \<open>
  \<open>run\<close> stands for \<open>_run_chain\<close> with its data arguments fixed; chain \<open>C\<close> is called
  with the seed \<open>seed + C + 1\<close>. In the serial branch the chains run one after the other
  in the calling process, without a progress queue, and the first exception ends the run.
\<close>

fun serial_results ::
  "(int \<Rightarrow> bool \<Rightarrow> 'g \<Rightarrow> (error + 'r) \<times> nat \<times> 'g) \<Rightarrow> int \<Rightarrow> nat list \<Rightarrow> 'g
     \<Rightarrow> error + 'r list" where
  "serial_results run seed [] g = Inr []"
| "serial_results run seed (C # Cs) g =
     (case run (seed + int C + 1) False g of
        (Inl e, n, g') \<Rightarrow> Inl e
      | (Inr r, n, g') \<Rightarrow>
          (case serial_results run seed Cs g' of
             Inl e \<Rightarrow> Inl e
           | Inr rs \<Rightarrow> Inr (r # rs)))"

text \<open>
  In the parallel branch each job is one call of \<open>_run_chain\<close> in one of the worker
  processes of the pool; the processes share no memory, and each has a random state of
  its own. Which worker takes which job, and in which order, is the pool's choice: it is
  the schedule \<open>sched\<close>, a list of pairs \<open>(job, worker)\<close>, and \<open>ws\<close> gives the random
  state each worker starts with. A future holds the outcome of its job and the number of
  items the job has put on the progress queue.
\<close>

fun pool_execute ::
  "(int \<Rightarrow> bool \<Rightarrow> 'g \<Rightarrow> (error + 'r) \<times> nat \<times> 'g) \<Rightarrow> int \<Rightarrow> (nat \<times> nat) list
     \<Rightarrow> (nat \<Rightarrow> 'g) \<Rightarrow> (nat \<rightharpoonup> (error + 'r) \<times> nat) \<Rightarrow> (nat \<rightharpoonup> (error + 'r) \<times> nat)" where
  "pool_execute run seed [] ws futures = futures"
| "pool_execute run seed ((C, w) # sched) ws futures =
     (case run (seed + int C + 1) True (ws w) of
        (r, n, g') \<Rightarrow> pool_execute run seed sched (ws(w := g')) (futures(C \<mapsto> (r, n))))"

text \<open>
  The pool runs every submitted job once, on one of its \<open>parallel\<close> workers.
\<close>

definition valid_schedule :: "nat \<Rightarrow> int \<Rightarrow> (nat \<times> nat) list \<Rightarrow> bool" where
  "valid_schedule nchains parallel sched =
     (distinct (map fst sched) \<and> set (map fst sched) = set [0..<nchains]
      \<and> (\<forall>w \<in> set (map snd sched). int w < parallel))"

text \<open>
  The main process takes \<open>total_n\<close> items (the source's \<open>total\<close>) from the progress queue before it reads the
  results; it waits forever when the jobs have put fewer. \<open>[J.result() for J in jobs]\<close>
  raises the first exception a job has raised; the result of a job that never ran is
  never there.
\<close>

definition queue_items :: "(nat \<rightharpoonup> (error + 'r) \<times> nat) \<Rightarrow> nat list \<Rightarrow> nat" where
  "queue_items futures jobs =
     sum_list (map (\<lambda>C. case futures C of None \<Rightarrow> 0 | Some (r, n) \<Rightarrow> n) jobs)"

fun job_results :: "(nat \<rightharpoonup> (error + 'r) \<times> nat) \<Rightarrow> nat list \<Rightarrow> error + 'r list" where
  "job_results futures [] = Inr []"
| "job_results futures (C # Cs) =
     (case futures C of
        None \<Rightarrow> Inl NonTermination
      | Some (Inl e, n) \<Rightarrow> Inl e
      | Some (Inr r, n) \<Rightarrow>
          (case job_results futures Cs of
             Inl e \<Rightarrow> Inl e
           | Inr rs \<Rightarrow> Inr (r # rs)))"

definition chain_results ::
  "(int \<Rightarrow> bool \<Rightarrow> 'g \<Rightarrow> (error + 'r) \<times> nat \<times> 'g) \<Rightarrow> nat \<Rightarrow> nat \<Rightarrow> int \<Rightarrow> int
     \<Rightarrow> (nat \<times> nat) list \<Rightarrow> (nat \<Rightarrow> 'g) \<Rightarrow> 'g \<Rightarrow> error + 'r list" where
  "chain_results run total_n nchains seed parallel sched ws g_main =
     (if 0 < parallel then
        (let futures = pool_execute run seed sched ws Map.empty
         in if queue_items futures [0..<nchains] < total_n then Inl NonTermination
            else job_results futures [0..<nchains])
      else serial_results run seed [0..<nchains] g_main)"

text \<open>The burn-in prefix is cut from each chain's lists and the rest is appended.\<close>

definition merge_results ::
  "int \<Rightarrow> ('a list \<times> 'b list \<times> 'c list) list \<Rightarrow> error + ('a list \<times> 'b list \<times> 'c list)" where
  "merge_results discard_first results =
     (let (merged_adj, merged_phi, merged_llh) =
            foldl (\<lambda>(ma, mp, ml) (A, P, L).
                     (ma @ py_slice_from A discard_first,
                      mp @ py_slice_from P discard_first,
                      ml @ py_slice_from L discard_first))
                  ([], [], []) results
      in if length merged_adj = length merged_phi \<and> length merged_phi = length merged_llh
         then Inr (merged_adj, merged_phi, merged_llh)
         else Inl AssertionError)"

text \<open>
  \<open>round(burnin * trees_per_chain)\<close>: \<open>burnin\<close> is the value of the float passed, the
  \<open>int\<close> \<open>trees_per_chain\<close> is converted to a float, the product is a float
  multiplication, and \<open>round\<close> takes the float product to an \<open>int\<close>.
\<close>

definition discard_count :: "real \<Rightarrow> nat \<Rightarrow> error + int" where
  "discard_count burnin trees_per_chain =
     (case py_float_of_int (int trees_per_chain) of
        Inl e \<Rightarrow> Inl e
      | Inr t \<Rightarrow> py_round_float (binary64 (burnin * t)))"

definition sample_trees ::
  "(nat \<Rightarrow> real \<Rightarrow> int \<Rightarrow> bool \<Rightarrow> 'g \<Rightarrow> (error + ('a list \<times> 'b list \<times> 'c list)) \<times> nat \<times> 'g)
     \<Rightarrow> nat \<Rightarrow> real \<Rightarrow> nat \<Rightarrow> real \<Rightarrow> int \<Rightarrow> int
     \<Rightarrow> (nat \<times> nat) list \<Rightarrow> (nat \<Rightarrow> 'g) \<Rightarrow> 'g
     \<Rightarrow> error + ('a list \<times> 'b list \<times> 'c list)" where
  "sample_trees run trees_per_chain burnin nchains thinned_frac seed parallel sched ws g_main =
     (if \<not> 0 < nchains then Inl AssertionError
      else if \<not> 0 < trees_per_chain then Inl AssertionError
      else if \<not> (0 \<le> burnin \<and> burnin \<le> 1) then Inl AssertionError
      else if \<not> (0 < thinned_frac \<and> thinned_frac \<le> 1) then Inl AssertionError
      else
        (let total_n = nchains * trees_per_chain
         in case chain_results (run trees_per_chain thinned_frac) total_n nchains seed parallel
                   sched ws g_main of
              Inl e \<Rightarrow> Inl e
            | Inr results \<Rightarrow>
                (case discard_count burnin trees_per_chain of
                   Inl e \<Rightarrow> Inl e
                 | Inr discard_first \<Rightarrow> merge_results discard_first results)))"

section \<open>Auxiliary notions for the statements\<close>

text \<open>
  A small instance of the chain runner's parameters, on which the theorems are
  evaluated: the random state is a counter, the first sample is the one-node tree, and
  the proposal returns the current sample with proposal probabilities 1.
\<close>

definition toy_random :: "int np_random" where
  "toy_random = \<lparr>np_random_seed = (\<lambda>n. n), np_random_choice = (\<lambda>W g. (0, g + 1)),
                 np_random_uniform = (\<lambda>g. (1 / 2, g + 1))\<rparr>"

definition toy_sample :: "unit TreeSample" where
  "toy_sample = \<lparr>adj = [[1]], anc = [[1]], depth_frac = [NaN], phi = (), llh_phi = 0\<rparr>"

definition toy_init :: "int \<Rightarrow> int \<Rightarrow> error + (unit TreeSample \<times> int)" where
  "toy_init seed g = Inr (toy_sample, seed mod 2 ^ 32)"

definition toy_gen :: "(unit, int) proposer" where
  "toy_gen s g = Inr (s, Fin 0, Fin 0, g)"

section \<open>Rounding: \<open>round\<close> and the float arithmetic\<close>

lemma py_round_ge_floor: "\<lfloor>x\<rfloor> \<le> py_round x"
  by (simp add: py_round_def Let_def)

lemma py_round_le_ceiling: "py_round x \<le> \<lfloor>x\<rfloor> + 1"
  by (simp add: py_round_def Let_def)

lemma py_round_of_int: "py_round (of_int n) = n"
  by (simp add: py_round_def Let_def)

lemma py_round_nonneg: "0 \<le> x \<Longrightarrow> 0 \<le> py_round x"
  using py_round_ge_floor[of x] by (smt (verit) zero_le_floor)

lemma py_round_le_int:
  assumes "x \<le> of_int n"
  shows "py_round x \<le> n"
proof (cases "x = of_int n")
  case True
  then show ?thesis by (simp add: py_round_of_int)
next
  case False
  with assms have "x < of_int n" by simp
  then have "\<lfloor>x\<rfloor> < n" by (simp add: floor_less_iff)
  with py_round_le_ceiling[of x] show ?thesis by linarith
qed

lemma py_round_ge_int:
  assumes "of_int n \<le> x"
  shows "n \<le> py_round x"
proof -
  from assms have "n \<le> \<lfloor>x\<rfloor>" by (simp add: le_floor_iff)
  with py_round_ge_floor[of x] show ?thesis by linarith
qed

lemma py_round_err: "\<bar>of_int (py_round x) - x\<bar> \<le> 1 / 2"
proof -
  have "of_int \<lfloor>x\<rfloor> \<le> x" "x < of_int \<lfloor>x\<rfloor> + 1" by linarith+
  then show ?thesis
    by (auto simp: py_round_def Let_def abs_le_iff)
qed

lemma py_round_near:
  assumes "\<bar>x - of_int n\<bar> < 1 / 2"
  shows "py_round x = n"
proof -
  have "\<bar>of_int (py_round x) - of_int n\<bar> < (1::real)"
    using py_round_err[of x] assms by linarith
  then have "\<bar>of_int (py_round x - n) :: real\<bar> < 1" by simp
  then have "\<bar>py_round x - n\<bar> < 1" by linarith
  then show ?thesis by linarith
qed

lemma ulp_pos: "0 < ulp x"
  by (simp add: ulp_def)

lemma float_exponent_ge: "- 1022 \<le> float_exponent x"
  by (simp add: float_exponent_def)

lemma float_exponent_le:
  assumes "x \<noteq> 0" and "\<bar>x\<bar> < 2 powr of_int k" and "- 1021 \<le> k"
  shows "float_exponent x \<le> k - 1"
proof -
  have "log 2 \<bar>x\<bar> < of_int k"
    using assms(1,2) by (simp add: log_less_iff)
  then have "\<lfloor>log 2 \<bar>x\<bar>\<rfloor> < k" by (simp add: floor_less_iff)
  then show ?thesis using assms(1,3) by (simp add: float_exponent_def)
qed

lemma float_exponent_lower:
  assumes "x \<noteq> 0"
  shows "float_exponent x = - 1022 \<or> 2 powr of_int (float_exponent x) \<le> \<bar>x\<bar>"
proof (cases "\<lfloor>log 2 \<bar>x\<bar>\<rfloor> \<le> - 1022")
  case True
  then show ?thesis using assms by (simp add: float_exponent_def max_def)
next
  case False
  then have e: "float_exponent x = \<lfloor>log 2 \<bar>x\<bar>\<rfloor>"
    using assms by (simp add: float_exponent_def max_def)
  have "of_int \<lfloor>log 2 \<bar>x\<bar>\<rfloor> \<le> log 2 \<bar>x\<bar>" by simp
  then have "2 powr of_int \<lfloor>log 2 \<bar>x\<bar>\<rfloor> \<le> \<bar>x\<bar>"
    using assms le_log_iff[of 2 "\<bar>x\<bar>" "of_int \<lfloor>log 2 \<bar>x\<bar>\<rfloor>"] by simp
  then show ?thesis using e by simp
qed

lemma float_exponent_ge_of:
  assumes "2 powr of_int k \<le> \<bar>x\<bar>"
  shows "k \<le> float_exponent x"
proof -
  have x: "0 < \<bar>x\<bar>" using assms by (smt (verit) powr_gt_zero)
  have "of_int k \<le> log 2 \<bar>x\<bar>" using assms x by (simp add: le_log_iff)
  then have "k \<le> \<lfloor>log 2 \<bar>x\<bar>\<rfloor>" by (simp add: le_floor_iff)
  then show ?thesis using x by (simp add: float_exponent_def)
qed

lemma ulp_le:
  assumes "x \<noteq> 0" and "\<bar>x\<bar> < 2 powr of_int k" and "- 1021 \<le> k"
  shows "ulp x \<le> 2 powr (of_int k - 53)"
proof -
  from float_exponent_le[OF assms] have "of_int (float_exponent x) - 52 \<le> (of_int k - 53 :: real)"
    by linarith
  then show ?thesis unfolding ulp_def by (simp only: powr_le_cancel_iff) 
qed

lemma binary64_err: "\<bar>of_int (py_round (x / ulp x)) * ulp x - x\<bar> \<le> ulp x / 2"
proof -
  have u: "0 < ulp x" by (rule ulp_pos)
  have "\<bar>of_int (py_round (x / ulp x)) - x / ulp x\<bar> * ulp x \<le> (1 / 2) * ulp x"
    using py_round_err[of "x / ulp x"] u by (intro mult_right_mono) simp_all
  moreover have "\<bar>of_int (py_round (x / ulp x)) - x / ulp x\<bar> * ulp x
      = \<bar>of_int (py_round (x / ulp x)) * ulp x - x\<bar>"
  proof -
    have "\<bar>of_int (py_round (x / ulp x)) - x / ulp x\<bar> * ulp x
        = \<bar>(of_int (py_round (x / ulp x)) - x / ulp x) * ulp x\<bar>"
      using u by (simp add: abs_mult)
    also have "(of_int (py_round (x / ulp x)) - x / ulp x) * ulp x
                = of_int (py_round (x / ulp x)) * ulp x - x"
      using u by (simp add: algebra_simps)
    finally show ?thesis .
  qed
  ultimately show ?thesis by simp
qed

lemma binary64_Fin:
  assumes "\<bar>x\<bar> + ulp x / 2 < 2 ^ 1024"
  shows "binary64 x = Fin (of_int (py_round (x / ulp x)) * ulp x)"
proof -
  have "\<bar>of_int (py_round (x / ulp x)) * ulp x\<bar> \<le> \<bar>x\<bar> + ulp x / 2"
    using binary64_err[of x] by linarith
  then have "\<not> 2 ^ 1024 \<le> \<bar>of_int (py_round (x / ulp x)) * ulp x\<bar>"
    using assms by linarith
  then show ?thesis by (simp add: binary64_def Let_def)
qed

lemma binary64_cases:
  "binary64 x = PInf \<or> binary64 x = NInf
   \<or> (binary64 x = Fin (of_int (py_round (x / ulp x)) * ulp x)
      \<and> \<bar>of_int (py_round (x / ulp x)) * ulp x\<bar> < 2 ^ 1024)"
  by (simp add: binary64_def Let_def)

lemma grid_lower:
  assumes "of_int k * ulp x \<le> x"
  shows "of_int k * ulp x \<le> of_int (py_round (x / ulp x)) * ulp x"
proof -
  have u: "0 < ulp x" by (rule ulp_pos)
  have "of_int k \<le> x / ulp x" using assms u by (simp add: pos_le_divide_eq)
  then have "k \<le> py_round (x / ulp x)" by (rule py_round_ge_int)
  then have "(of_int k :: real) \<le> of_int (py_round (x / ulp x))" by simp
  then show ?thesis using u by (simp add: mult_right_mono)
qed

lemma grid_upper:
  assumes "x \<le> of_int k * ulp x"
  shows "of_int (py_round (x / ulp x)) * ulp x \<le> of_int k * ulp x"
proof -
  have u: "0 < ulp x" by (rule ulp_pos)
  have "x / ulp x \<le> of_int k" using assms u by (simp add: pos_divide_le_eq)
  then have "py_round (x / ulp x) \<le> k" by (rule py_round_le_int)
  then have "(of_int (py_round (x / ulp x)) :: real) \<le> of_int k" by simp
  then show ?thesis using u by (simp add: mult_right_mono)
qed

lemma ulp_inverse_int:
  assumes "float_exponent x \<le> 52"
  shows "ulp x * 2 ^ nat (52 - float_exponent x) = 1"
proof -
  define m where "m = nat (52 - float_exponent x)"
  have "of_int (float_exponent x) - 52 = - real m" using assms by (simp add: m_def)
  then have "ulp x = 2 powr (- real m)" by (simp add: ulp_def)
  also have "\<dots> = 1 / 2 ^ m" by (simp add: powr_minus powr_realpow divide_inverse)
  finally show ?thesis unfolding m_def by simp
qed

lemma int_on_grid:
  assumes "float_exponent x \<le> 52"
  shows "of_int (n * 2 ^ nat (52 - float_exponent x)) * ulp x = of_int n"
proof -
  have "of_int (n * 2 ^ nat (52 - float_exponent x)) * ulp x
      = of_int n * (ulp x * 2 ^ nat (52 - float_exponent x))" by (simp add: algebra_simps)
  then show ?thesis by (simp add: ulp_inverse_int[OF assms])
qed

lemma float_exponent_small:
  assumes "\<bar>x\<bar> < 2 ^ 53"
  shows "float_exponent x \<le> 52"
proof (cases "x = 0")
  case True
  then show ?thesis by (simp add: float_exponent_def)
next
  case False
  have "(2::real) ^ 53 = 2 powr of_int 53" by (simp add: powr_realpow[symmetric])
  with assms have "\<bar>x\<bar> < 2 powr of_int 53" by simp
  from float_exponent_le[OF False this] show ?thesis by simp
qed

lemma round_ge_int:
  assumes "\<bar>x\<bar> < 2 ^ 53" and "of_int n \<le> x"
  shows "of_int n \<le> of_int (py_round (x / ulp x)) * ulp x"
proof -
  note e = float_exponent_small[OF assms(1)]
  from grid_lower[of "n * 2 ^ nat (52 - float_exponent x)" x] assms(2)
  show ?thesis unfolding int_on_grid[OF e] by simp
qed

lemma round_le_int:
  assumes "\<bar>x\<bar> < 2 ^ 53" and "x \<le> of_int n"
  shows "of_int (py_round (x / ulp x)) * ulp x \<le> of_int n"
proof -
  note e = float_exponent_small[OF assms(1)]
  from grid_upper[of x "n * 2 ^ nat (52 - float_exponent x)"] assms(2)
  show ?thesis unfolding int_on_grid[OF e] by simp
qed

lemma pow2_m1074: "(2::real) powr (- 1074) = 1 / 2 ^ 1074"
proof -
  have "(2::real) powr (- 1074) = 1 / 2 powr 1074" by (simp only: powr_minus_divide)
  also have "(2::real) powr 1074 = 2 ^ 1074" using powr_realpow[of 2 1074] by simp
  finally show ?thesis .
qed
lemma pow2_1074_1024: "(1 / 2 ^ 1074) * 2 ^ 1024 < (2::real)"
proof -
  have "(2::real) ^ 1074 = 2 ^ 1024 * 2 ^ 50" by (simp only: power_add[symmetric]) simp
  then have "(1 / 2 ^ 1074) * 2 ^ 1024 = 1 / (2::real) ^ 50" by (simp only:) simp
  then show ?thesis by simp
qed
lemma pow2_50_m52: "(2::real) ^ 50 * 2 powr (- 52) = 1 / 4"
proof -
  have "(2::real) powr (- 52) = 1 / 2 powr 52" by (simp only: powr_minus_divide)
  also have "(2::real) powr 52 = 2 ^ 52" using powr_realpow[of 2 52] by simp
  finally show ?thesis by simp
qed
lemma pow2_50_1024: "(2::real) ^ 50 + 1 \<le> 2 ^ 1024"
proof -
  have "(2::real) ^ 50 + 1 \<le> 2 ^ 50 + 2 ^ 50" by simp
  also have "\<dots> = (2::real) ^ 51" by simp
  also have "\<dots> \<le> 2 ^ 1024" by (intro power_increasing) simp_all
  finally show ?thesis .
qed


lemma two_powr_int: "2 powr of_int (int k) = (2::real) ^ k"
  using powr_realpow[of 2 k] by simp

lemma real_div_le: "0 < r \<Longrightarrow> real (n div r) \<le> real n / real r"
proof -
  assume r: "0 < r"
  have "(n div r) * r \<le> n" by simp
  then have "real ((n div r) * r) \<le> real n" by (simp only: of_nat_le_iff)
  then have "real (n div r) * real r \<le> real n" by simp
  then show ?thesis using r by (simp add: pos_le_divide_eq)
qed

lemma binary64_ge_one:
  assumes "1 \<le> x"
  shows "binary64 x = PInf \<or> (\<exists>y. binary64 x = Fin y \<and> 1 \<le> y)"
proof -
  let ?y = "of_int (py_round (x / ulp x)) * ulp x"
  have x0: "x \<noteq> 0" using assms by simp
  have "2 powr of_int 0 \<le> \<bar>x\<bar>" using assms by simp
  from float_exponent_ge_of[OF this] have e0: "0 \<le> float_exponent x" .
  with float_exponent_lower[OF x0] have le: "2 powr of_int (float_exponent x) \<le> x"
    using assms by auto
  have g: "of_int (2 ^ 52) * ulp x = 2 powr of_int (float_exponent x)"
  proof -
    have "(2::real) ^ 52 = 2 powr 52" by simp
    then have "of_int (2 ^ 52) * ulp x = 2 powr 52 * 2 powr (of_int (float_exponent x) - 52)"
      by (simp add: ulp_def)
    also have "\<dots> = 2 powr (52 + (of_int (float_exponent x) - 52))"
      by (simp only: powr_add)
    finally show ?thesis by simp
  qed
  from grid_lower[of "2 ^ 52" x] g le have "2 powr of_int (float_exponent x) \<le> ?y" by simp
  moreover have "1 \<le> (2::real) powr of_int (float_exponent x)"
    using e0 by (simp add: ge_one_powr_ge_zero)
  ultimately have y1: "1 \<le> ?y" by linarith
  then show ?thesis by (auto simp: binary64_def Let_def)
qed

lemma binary64_zero: "binary64 0 = Fin 0"
  using py_round_of_int[of 0] by (simp add: binary64_def Let_def)

lemma binary64_int_quotient:
  fixes n r :: nat
  assumes "n < 2 ^ 50" and "0 < r" and "real r \<le> 2 ^ 1024"
  shows "\<exists>y. binary64 (real n / real r) = Fin y \<and> \<lfloor>y\<rfloor> = int (n div r)"
proof (cases "n = 0")
  case True
  then show ?thesis by (simp add: binary64_zero)
next
  case False
  define x where "x = real n / real r"
  define q where "q = n div r"
  let ?y = "of_int (py_round (x / ulp x)) * ulp x"
  have xpos: "0 < x" using False assms(2) by (simp add: x_def)
  then have x0: "x \<noteq> 0" by simp
  have rr: "0 < real r" using assms(2) by simp
  have xn: "x \<le> real n"
  proof -
    have "real n / real r \<le> real n / 1"
      using assms(2) by (intro divide_left_mono) simp_all
    then show ?thesis by (simp add: x_def)
  qed
  have n50: "real n < 2 ^ 50" using assms(1) by (metis of_nat_less_iff of_nat_numeral of_nat_power)
  have x53: "\<bar>x\<bar> < 2 ^ 53" using xn xpos n50 by simp
  have ql: "real q \<le> x" unfolding q_def x_def using assms(2) by (rule real_div_le)
  have lower: "real q \<le> ?y"
    using round_ge_int[OF x53, of "int q"] ql by simp
  have "n < r + q * r" unfolding q_def using assms(2) by (rule dividend_less_div_times)
  then have "Suc n \<le> r + q * r" by simp
  then have "real (Suc n) \<le> real (r + q * r)" by (simp only: of_nat_le_iff)
  then have "real n + 1 \<le> real r + real q * real r" by simp
  then have "(real n + 1) / real r \<le> (real r + real q * real r) / real r"
    using rr by (simp add: divide_right_mono)
  then have xu: "x \<le> real q + 1 - 1 / real r"
    using rr by (simp add: x_def add_divide_distrib diff_divide_distrib)
  have ub: "ulp x / 2 < 1 / real r"
  proof -
    have "ulp x * real r < 2"
    proof (cases "float_exponent x = - 1022")
      case True
      then have "ulp x = 2 powr (- 1074)" by (simp add: ulp_def)
      then have u: "ulp x = 1 / 2 ^ 1074" by (simp only: pow2_m1074)
      have "ulp x * real r \<le> (1 / 2 ^ 1074) * 2 ^ 1024"
        unfolding u using assms(3) by (intro mult_left_mono) simp_all
      then show ?thesis using pow2_1074_1024 by linarith
    next
      case False
      with float_exponent_lower[OF x0] xpos
      have le: "2 powr of_int (float_exponent x) \<le> x" by simp
      have "ulp x = 2 powr (of_int (float_exponent x) + (- 52))"
        unfolding ulp_def by simp
      also have "\<dots> = 2 powr of_int (float_exponent x) * 2 powr (- 52)"
        by (simp only: powr_add)
      also have "\<dots> \<le> x * 2 powr (- 52)" using le by (intro mult_right_mono) simp_all
      finally have "ulp x \<le> x * 2 powr (- 52)" .
      then have "ulp x * real r \<le> x * 2 powr (- 52) * real r"
        using rr by (intro mult_right_mono) simp_all
      also have "\<dots> = real n * 2 powr (- 52)" using rr by (simp add: x_def)
      also have "\<dots> < 2 ^ 50 * 2 powr (- 52)" using n50 by (intro mult_strict_right_mono) simp_all
      also have "\<dots> = 1 / 4" by (rule pow2_50_m52)
      finally show ?thesis by simp
    qed
    then show ?thesis using rr by (simp add: field_simps)
  qed
  have "?y \<le> x + ulp x / 2" using binary64_err[of x] by linarith
  with xu ub have upper: "?y < real q + 1" by linarith
  have r1: "1 / real r \<le> 1" using assms(2) by simp
  have "\<bar>x\<bar> + ulp x / 2 < 2 ^ 1024" 
  proof -
    have "\<bar>x\<bar> + ulp x / 2 < 2 ^ 50 + 1" using xn n50 xpos ub r1 by linarith
    also have "\<dots> \<le> (2::real) ^ 1024" by (rule pow2_50_1024)
    finally show ?thesis .
  qed
  from binary64_Fin[OF this] have b: "binary64 x = Fin ?y" .
  have "\<lfloor>?y\<rfloor> = int q" using lower upper by (intro floor_unique) simp_all
  with b show ?thesis unfolding x_def q_def by blast
qed

lemma binary64_between:
  fixes n :: nat
  assumes "0 \<le> x" and "x \<le> real n" and "n < 2 ^ 53"
  shows "\<exists>y. binary64 x = Fin y \<and> 0 \<le> y \<and> y \<le> real n"
proof -
  let ?y = "of_int (py_round (x / ulp x)) * ulp x"
  have n53: "real n < 2 ^ 53" using assms(3) by (metis of_nat_less_iff of_nat_numeral of_nat_power)
  then have x53: "\<bar>x\<bar> < 2 ^ 53" using assms(1,2) by simp
  have l: "0 \<le> ?y" using round_ge_int[OF x53, of 0] assms(1) by simp
  have u: "?y \<le> real n" using round_le_int[OF x53, of "int n"] assms(2) by simp
  have "\<bar>?y\<bar> < 2 ^ 1024"
  proof -
    have "\<bar>?y\<bar> < 2 ^ 53" using l u n53 by simp
    also have "\<dots> \<le> (2::real) ^ 1024" by simp
    finally show ?thesis .
  qed
  then have "binary64 x = Fin ?y" by (simp add: binary64_def Let_def)
  with l u show ?thesis by blast
qed

lemma binary64_of_nat:
  fixes n :: nat
  assumes "n < 2 ^ 53"
  shows "binary64 (real n) = Fin (real n)"
proof -
  let ?x = "real n"
  let ?y = "of_int (py_round (?x / ulp ?x)) * ulp ?x"
  have n53: "real n < 2 ^ 53" using assms by (metis of_nat_less_iff of_nat_numeral of_nat_power)
  then have x53: "\<bar>?x\<bar> < 2 ^ 53" by simp
  have l: "?x \<le> ?y" using round_ge_int[OF x53, of "int n"] by simp
  have u: "?y \<le> ?x" using round_le_int[OF x53, of "int n"] by simp
  have y: "?y = ?x" using l u by simp
  have "\<bar>?y\<bar> < 2 ^ 1024"
  proof -
    have "\<bar>?y\<bar> < 2 ^ 53" using y n53 by simp
    also have "\<dots> \<le> (2::real) ^ 1024" by simp
    finally show ?thesis .
  qed
  then have "binary64 ?x = Fin ?y" by (simp add: binary64_def Let_def)
  with y show ?thesis by simp
qed

lemma binary64_near:
  assumes "x \<noteq> 0" and "\<bar>x\<bar> < 2 ^ k" and "k \<le> 1000"
  shows "\<exists>y. binary64 x = Fin y \<and> \<bar>y - x\<bar> \<le> 2 ^ k / 2 ^ 54"
proof -
  let ?y = "of_int (py_round (x / ulp x)) * ulp x"
  have "\<bar>x\<bar> < 2 powr of_int (int k)" using assms(2) by (simp only: two_powr_int)
  from ulp_le[OF assms(1) this] have "ulp x \<le> 2 powr (of_int (int k) - 53)" by simp
  also have "\<dots> = 2 powr of_int (int k) / 2 powr 53" by (simp only: powr_diff)
  also have "\<dots> = 2 ^ k / 2 ^ 53" by (simp only: two_powr_int) simp
  finally have u: "ulp x \<le> 2 ^ k / 2 ^ 53" .
  have e: "\<bar>?y - x\<bar> \<le> 2 ^ k / 2 ^ 54" using binary64_err[of x] u by simp
  have "(2::real) ^ k / 2 ^ 53 \<le> 2 ^ k / 1"
    by (intro divide_left_mono) simp_all
  then have "ulp x \<le> 2 ^ k" using u by linarith
  then have h: "ulp x / 2 \<le> 2 ^ k" using ulp_pos[of x] by linarith
  have "\<bar>x\<bar> + ulp x / 2 < 2 ^ k + 2 ^ k" using assms(2) h by linarith
  also have "\<dots> = (2::real) ^ Suc k" by simp
  also have "\<dots> \<le> (2::real) ^ 1024" using assms(3) by (intro power_increasing) simp_all
  finally have "\<bar>x\<bar> + ulp x / 2 < 2 ^ 1024" .
  from binary64_Fin[OF this] e show ?thesis by blast
qed

section \<open>Thinning: the samples a chain retains\<close>

lemma count_multiples:
  "0 < r \<Longrightarrow> length (filter (\<lambda>I. I mod r = 0) [1..<Suc n]) = n div r"
proof (induction n)
  case 0
  then show ?case by simp
next
  case (Suc n)
  have "Suc n div r = n div r + (if Suc n mod r = 0 then 1 else 0)"
    using Suc.prems by (simp add: div_Suc mod_Suc)
  then show ?case using Suc by simp
qed

lemma chain_loop_counts:
  "chain_loop R gen r Is (samps, old, acc, g) = Inr (samps', old', acc', g') \<Longrightarrow>
     length samps' = length samps + length (filter (\<lambda>I. int I mod r = 0) Is)
     \<and> acc' \<le> acc + length Is"
proof (induction Is arbitrary: samps old acc g)
  case Nil
  then show ?case by simp
next
  case (Cons I Is)
  from Cons.prems obtain samp accept g2 where
    st: "mh_step R gen old g = Inr (samp, accept, g2)"
    by (auto split: sum.splits prod.splits)
  from Cons.prems st have r0: "r \<noteq> 0" by (auto split: if_splits)
  let ?s2 = "(if int I mod r = 0 then samps @ [samp] else samps)"
  let ?a2 = "(if accept then acc + 1 else acc)"
  have loop: "chain_loop R gen r Is (?s2, samp, ?a2, g2) = Inr (samps', old', acc', g')"
    using Cons.prems st r0 by simp
  from Cons.IH[OF loop] show ?case by (auto split: if_splits)
qed

lemma chain_loop_trace:
  assumes "chain_loop R gen r [Suc n..<N] (samps, old, acc, g) = Inr (samps', old', acc', g')"
    and "chain_state R gen sg0 n = Inr (old, g)"
  shows "samps' = samps @ map (state_at R gen sg0) (filter (\<lambda>I. int I mod r = 0) [Suc n..<N])"
  using assms
proof (induction "N - Suc n" arbitrary: n samps old acc g)
  case 0
  then show ?case by simp
next
  case (Suc k)
  then have lt: "Suc n < N" by linarith
  then have upt: "[Suc n..<N] = Suc n # [Suc (Suc n)..<N]" by (simp add: upt_conv_Cons)
  from Suc.prems(1) obtain samp accept g2 where
    st: "mh_step R gen old g = Inr (samp, accept, g2)"
    by (auto simp: upt split: sum.splits prod.splits)
  from Suc.prems(1) st have r0: "r \<noteq> 0" by (auto simp: upt split: if_splits)
  have cs: "chain_state R gen sg0 (Suc n) = Inr (samp, g2)"
    using Suc.prems(2) st by simp
  have sa: "state_at R gen sg0 (Suc n) = samp"
    by (simp add: state_at_def cs del: chain_state.simps)
  let ?s2 = "(if int (Suc n) mod r = 0 then samps @ [samp] else samps)"
  have loop: "chain_loop R gen r [Suc (Suc n)..<N] (?s2, samp, (if accept then acc + 1 else acc), g2)
                = Inr (samps', old', acc', g')"
    using Suc.prems(1) st r0 unfolding upt by simp
  have k: "k = N - Suc (Suc n)" using Suc.hyps(2) by linarith
  from Suc.hyps(1)[OF k loop cs]
  show ?case unfolding upt using sa by (simp del: chain_state.simps)
qed

lemma chain_loop_returns:
  assumes "chain_state R gen sg0 n = Inr (old, g)"
    and "\<forall>I<N. \<exists>s g. chain_state R gen sg0 I = Inr (s, g)"
    and "r \<noteq> 0"
  shows "\<exists>st. chain_loop R gen r [Suc n..<N] (samps, old, acc, g) = Inr st"
  using assms(1)
proof (induction "N - Suc n" arbitrary: n samps old acc g)
  case 0
  then show ?case by simp
next
  case (Suc k)
  then have lt: "Suc n < N" by linarith
  then have upt: "[Suc n..<N] = Suc n # [Suc (Suc n)..<N]" by (simp add: upt_conv_Cons)
  from assms(2) lt obtain s2 g2 where cs: "chain_state R gen sg0 (Suc n) = Inr (s2, g2)"
    by blast
  then obtain accept where st: "mh_step R gen old g = Inr (s2, accept, g2)"
    using Suc.prems by (auto split: sum.splits)
  have k: "k = N - Suc (Suc n)" using Suc.hyps(2) by linarith
  from Suc.hyps(1)[OF k cs]
  show ?case unfolding upt using st assms(3) by simp
qed

lemma chain_state_total:
  assumes "\<And>s g. \<exists>x. gen s g = Inr x"
  shows "\<exists>s g. chain_state R gen sg I = Inr (s, g)"
proof (induction I)
  case 0
  then show ?case by (cases sg) simp
next
  case (Suc I)
  then obtain s g where cs: "chain_state R gen sg I = Inr (s, g)" by blast
  from assms obtain x where "gen s g = Inr x" by blast
  then have "\<exists>y. mh_step R gen s g = Inr y"
    by (cases x) (auto simp: mh_step_def Let_def split: prod.splits)
  then show ?case using cs by (auto split: prod.splits)
qed

text \<open>The sampling period: at least 1 and below \<open>2 ^ 1024\<close> whenever it is computed.\<close>

lemma record_every_bounds:
  assumes "0 < tf" and "tf \<le> 1" and "py_round_float (binary64 (1 / tf)) = Inr r"
  shows "1 \<le> r \<and> real_of_int r \<le> 2 ^ 1024"
proof -
  have x1: "1 \<le> 1 / tf" using assms(1,2) by simp
  from assms(3) obtain y where y: "binary64 (1 / tf) = Fin y" and r: "r = py_round y"
    by (cases "binary64 (1 / tf)") auto
  from binary64_ge_one[OF x1] y have "1 \<le> y" by auto
  then have "of_int 1 \<le> y" by simp
  then have r1: "1 \<le> r" unfolding r by (rule py_round_ge_int)
  from binary64_cases[of "1 / tf"] y have "\<bar>y\<bar> < 2 ^ 1024" by auto
  then have "y \<le> of_int (2 ^ 1024)" by simp
  then have "r \<le> 2 ^ 1024" unfolding r by (rule py_round_le_int)
  then have "real_of_int r \<le> real_of_int (2 ^ 1024)" by (simp only: of_int_le_iff)
  then show ?thesis using r1 by simp
qed

lemma py_true_div_floor:
  fixes n r :: nat
  assumes "n < 2 ^ 50" and "0 < r" and "real r \<le> 2 ^ 1024"
  shows "\<exists>q. py_true_div (int n) (int r) = Inr q \<and> \<lfloor>q\<rfloor> = int (n div r)"
proof -
  from binary64_int_quotient[OF assms] obtain y where
    "binary64 (real n / real r) = Fin y" "\<lfloor>y\<rfloor> = int (n div r)" by blast
  then show ?thesis using assms(2) by (simp add: py_true_div_def)
qed

lemma run_chain_samples:
  assumes "1 < N" and "N \<le> 2 ^ 50" and "0 < tf" and "tf \<le> 1"
    and "py_round_float (binary64 (1 / tf)) = Inr r"
    and "init seed g_in = Inr (samp0, g0)"
    and "\<forall>I<N. \<exists>s g. chain_state R gen (samp0, g0) I = Inr (s, g)"
  shows "\<exists>(samps :: 'p TreeSample list) g'.
           run_chain R init gen N tf seed progress g_in =
             (Inr (map adj samps, map phi samps, map llh_phi samps),
              (if progress then N else 0), g')
         \<and> samps = map (state_at R gen (samp0, g0))
                      (filter (\<lambda>I. int I mod r = 0) [0..<N])
         \<and> 1 \<le> r
         \<and> length samps = 1 + (N - 1) div nat r"
proof -
  from record_every_bounds[OF assms(3,4,5)] have r1: "1 \<le> r" and rb: "real_of_int r \<le> 2 ^ 1024"
    by blast+
  define rn where "rn = nat r"
  have rn: "r = int rn" "0 < rn" using r1 by (simp_all add: rn_def)
  have rnb: "real rn \<le> 2 ^ 1024" using rb rn(1) by simp
  have N1: "N - 1 < 2 ^ 50" using assms(1,2) by linarith
  from py_true_div_floor[OF N1 rn(2) rnb] obtain q where
    q: "py_true_div (int (N - 1)) (int rn) = Inr q" and fl: "\<lfloor>q\<rfloor> = int ((N - 1) div rn)"
    by blast
  have iN: "int N - 1 = int (N - 1)" using assms(1) by simp
  have cs0: "chain_state R gen (samp0, g0) 0 = Inr (samp0, g0)" by simp
  have r0: "r \<noteq> 0" using r1 by simp
  from chain_loop_returns[OF cs0 assms(7) r0, of "[samp0]" 0]
  obtain samps old' acc' g' where
    loop: "chain_loop R gen r [Suc 0..<N] ([samp0], samp0, 0, g0) = Inr (samps, old', acc', g')"
    by (metis prod_cases4)
  from chain_loop_trace[OF loop cs0]
  have tr: "samps = [samp0] @ map (state_at R gen (samp0, g0))
                                 (filter (\<lambda>I. int I mod r = 0) [Suc 0..<N])" .
  have upt0: "[0..<N] = 0 # [Suc 0..<N]" using assms(1) by (simp add: upt_conv_Cons)
  have s0: "state_at R gen (samp0, g0) 0 = samp0" by (simp add: state_at_def)
  have tr': "samps = map (state_at R gen (samp0, g0)) (filter (\<lambda>I. int I mod r = 0) [0..<N])"
    unfolding upt0 using tr s0 by simp
  obtain m where m: "N = Suc m" using assms(1) by (cases N) auto
  have modeq: "\<And>I. (int I mod int rn = 0) = (I mod rn = 0)"
    by (metis of_nat_mod of_nat_eq_0_iff)
  have len: "length samps = 1 + (N - 1) div rn"
    using tr count_multiples[OF rn(2), of m] by (simp add: rn m modeq)
  have lenint: "int (length samps) = 1 + \<lfloor>q\<rfloor>" using len fl by simp
  from chain_loop_counts[OF loop] have "acc' \<le> N - 1" by simp
  then have acc: "acc' < 2 ^ 50" using N1 by linarith
  have Npos: "0 < N - 1" using assms(1) by simp
  have Nb: "real (N - 1) \<le> 2 ^ 1024"
  proof -
    have "real (N - 1) \<le> 2 ^ 50" using N1 by (metis less_imp_le of_nat_le_iff of_nat_numeral of_nat_power)
    also have "\<dots> \<le> (2::real) ^ 1024" by (intro power_increasing) simp_all
    finally show ?thesis .
  qed
  from py_true_div_floor[OF acc Npos Nb] obtain ar where
    ar: "py_true_div (int acc') (int (N - 1)) = Inr ar" by blast
  have q': "py_true_div (int N - 1) r = Inr q" using q unfolding iN rn(1) .
  have ar': "py_true_div (int acc') (int N - 1) = Inr ar" using ar unfolding iN .
  have N0: "0 < N" using assms(1) by simp
  have loop': "chain_loop R gen r [1..<N] ([samp0], samp0, 0, g0) = Inr (samps, old', acc', g')"
    using loop by simp
  have run: "run_chain R init gen N tf seed progress g_in =
             (Inr (map adj samps, map phi samps, map llh_phi samps),
              (if progress then N else 0), g')"
    unfolding run_chain_def
    by (simp only: N0 assms(3,4,5,6) q' ar' loop' lenint Let_def
          not_True_eq_False if_False if_True sum.case prod.case simp_thms)
  show ?thesis using run tr' r1 len rn_def by auto
qed

lemma run_chain_lengths:
  assumes "run_chain R init gen N tf seed pr g = (Inr (A, P, L), n, g')"
  shows "1 < N \<and> 0 < tf \<and> tf \<le> 1 \<and> length P = length A \<and> length L = length A
         \<and> (\<exists>r. py_round_float (binary64 (1 / tf)) = Inr r \<and> 1 \<le> r
                \<and> length A = 1 + (N - 1) div nat r)"
proof -
  from assms have N: "0 < N" by (auto simp: run_chain_def split: if_splits)
  from assms N obtain samp0 g0 where i: "init seed g = Inr (samp0, g0)"
    by (auto simp: run_chain_def split: if_splits sum.splits)
  from assms N i have tf: "0 < tf" "tf \<le> 1"
    by (auto simp: run_chain_def split: if_splits)
  from assms N i tf obtain r where r: "py_round_float (binary64 (1 / tf)) = Inr r"
    by (auto simp: run_chain_def split: sum.splits)
  from assms N i tf r obtain q where q: "py_true_div (int N - 1) r = Inr q"
    by (auto simp: run_chain_def split: sum.splits)
  from assms N i tf r q obtain samps old acc g1 where
    loop: "chain_loop R gen r [1..<N] ([samp0], samp0, 0, g0) = Inr (samps, old, acc, g1)"
    by (auto simp: run_chain_def Let_def split: sum.splits prod.splits)
  from assms N i tf r q loop obtain ar where
    ar: "py_true_div (int acc) (int N - 1) = Inr ar"
    by (auto simp: run_chain_def Let_def split: sum.splits)
  then have N1: "1 < N" using N by (auto simp: py_true_div_def split: if_splits)
  from assms N i tf r q loop ar have
    o: "A = map adj samps" "P = map phi samps" "L = map llh_phi samps"
    by (auto simp: run_chain_def Let_def split: if_splits)
  from record_every_bounds[OF tf r] have r1: "1 \<le> r" by blast
  define rn where "rn = nat r"
  have rn: "r = int rn" "0 < rn" using r1 by (simp_all add: rn_def)
  obtain m where m: "N = Suc m" using N by (cases N) auto
  have modeq: "\<And>I. (int I mod int rn = 0) = (I mod rn = 0)"
    by (metis of_nat_mod of_nat_eq_0_iff)
  from chain_loop_counts[OF loop]
  have "length samps = 1 + length (filter (\<lambda>I. int I mod r = 0) [1..<N])" by simp
  then have "length samps = 1 + (N - 1) div rn"
    using count_multiples[OF rn(2), of m] by (simp add: rn m modeq)
  then show ?thesis using N1 tf o r r1 by (simp add: rn_def)
qed



lemma binary64_one: "binary64 1 = Fin 1"
  using binary64_of_nat[of 1] by simp

lemma record_every_one: "py_round_float (binary64 (1 / 1)) = Inr 1"
  using py_round_of_int[of 1] by (simp add: binary64_one)

lemma py_round_float_near:
  assumes "x \<noteq> 0" and "\<bar>x\<bar> < 2 ^ k" and "k \<le> 1000"
    and "\<bar>x - of_int n\<bar> + 2 ^ k / 2 ^ 54 < 1 / 2"
  shows "py_round_float (binary64 x) = Inr n"
proof -
  from binary64_near[OF assms(1-3)] obtain y where
    y: "binary64 x = Fin y" "\<bar>y - x\<bar> \<le> 2 ^ k / 2 ^ 54" by blast
  have "\<bar>y - of_int n\<bar> < 1 / 2" using y(2) assms(4) by linarith
  from py_round_near[OF this] show ?thesis using y(1) by simp
qed


lemma toy_mh_step: "mh_step toy_random toy_gen s g = Inr (s, True, g + 1)"
  by (simp add: mh_step_def toy_gen_def toy_random_def log_p_transition_def np_sub_def np_ge_def)







section \<open>Burn-in and merging\<close>


lemma serial_results_calls:
  "serial_results run seed Cs g = Inr rs \<Longrightarrow>
     length rs = length Cs
     \<and> (\<forall>i<length Cs. \<exists>g1 n g'. run (seed + int (Cs ! i) + 1) False g1 = (Inr (rs ! i), n, g'))"
proof (induction Cs arbitrary: g rs)
  case Nil
  then show ?case by simp
next
  case (Cons C Cs)
  from Cons.prems obtain r n g' rs' where
    a: "run (seed + int C + 1) False g = (Inr r, n, g')"
    and b: "serial_results run seed Cs g' = Inr rs'" and c: "rs = r # rs'"
    by (auto split: prod.splits sum.splits)
  from Cons.IH[OF b] have len: "length rs' = length Cs"
    and ih: "\<forall>i<length Cs. \<exists>g1 n g'. run (seed + int (Cs ! i) + 1) False g1 = (Inr (rs' ! i), n, g')"
    by blast+
  have "\<forall>i<length (C # Cs). \<exists>g1 n g'.
          run (seed + int ((C # Cs) ! i) + 1) False g1 = (Inr (rs ! i), n, g')"
  proof (intro allI impI)
    fix i assume i: "i < length (C # Cs)"
    show "\<exists>g1 n g'. run (seed + int ((C # Cs) ! i) + 1) False g1 = (Inr (rs ! i), n, g')"
    proof (cases i)
      case 0
      then show ?thesis using a c by auto
    next
      case (Suc j)
      then have "j < length Cs" using i by simp
      with ih show ?thesis using Suc c by simp
    qed
  qed
  then show ?case using len c by simp
qed

lemma pool_execute_calls:
  assumes "\<forall>C r n. futures C = Some (Inr r, n)
             \<longrightarrow> (\<exists>g g'. run (seed + int C + 1) True g = (Inr r, n, g'))"
  shows "\<forall>C r n. pool_execute run seed sched ws futures C = Some (Inr r, n)
             \<longrightarrow> (\<exists>g g'. run (seed + int C + 1) True g = (Inr r, n, g'))"
  using assms
proof (induction sched arbitrary: ws futures)
  case Nil
  then show ?case by simp
next
  case (Cons a sched)
  obtain C w where a: "a = (C, w)" by (cases a)
  obtain r n g' where run: "run (seed + int C + 1) True (ws w) = (r, n, g')"
    by (cases "run (seed + int C + 1) True (ws w)")
  have "\<forall>C' r' n'. (futures(C \<mapsto> (r, n))) C' = Some (Inr r', n')
           \<longrightarrow> (\<exists>g g'. run (seed + int C' + 1) True g = (Inr r', n', g'))"
  proof (intro allI impI)
    fix C' r' n'
    assume h: "(futures(C \<mapsto> (r, n))) C' = Some (Inr r', n')"
    show "\<exists>g g'. run (seed + int C' + 1) True g = (Inr r', n', g')"
    proof (cases "C' = C")
      case True
      with h have "r = Inr r'" "n = n'" by simp_all
      with run True show ?thesis by blast
    next
      case False
      with h have "futures C' = Some (Inr r', n')" by simp
      with Cons.prems show ?thesis by blast
    qed
  qed
  from Cons.IH[OF this, of "ws(w := g')"]
  have "\<forall>C' r' n'. pool_execute run seed sched (ws(w := g')) (futures(C \<mapsto> (r, n))) C'
            = Some (Inr r', n')
           \<longrightarrow> (\<exists>g g'. run (seed + int C' + 1) True g = (Inr r', n', g'))" .
  moreover have "pool_execute run seed (a # sched) ws futures
      = pool_execute run seed sched (ws(w := g')) (futures(C \<mapsto> (r, n)))"
    by (simp add: a run)
  ultimately show ?case by simp
qed

lemma job_results_nth:
  "job_results futures Cs = Inr rs \<Longrightarrow>
     length rs = length Cs \<and> (\<forall>i<length Cs. \<exists>n. futures (Cs ! i) = Some (Inr (rs ! i), n))"
proof (induction Cs arbitrary: rs)
  case Nil
  then show ?case by simp
next
  case (Cons C Cs)
  from Cons.prems obtain r n rs' where
    a: "futures C = Some (Inr r, n)" and b: "job_results futures Cs = Inr rs'" and c: "rs = r # rs'"
    by (auto split: option.splits prod.splits sum.splits)
  from Cons.IH[OF b] have len: "length rs' = length Cs"
    and ih: "\<forall>i<length Cs. \<exists>n. futures (Cs ! i) = Some (Inr (rs' ! i), n)" by blast+
  have "\<forall>i<length (C # Cs). \<exists>n. futures ((C # Cs) ! i) = Some (Inr (rs ! i), n)"
  proof (intro allI impI)
    fix i assume i: "i < length (C # Cs)"
    show "\<exists>n. futures ((C # Cs) ! i) = Some (Inr (rs ! i), n)"
    proof (cases i)
      case 0
      then show ?thesis using a c by auto
    next
      case (Suc j)
      then have "j < length Cs" using i by simp
      with ih show ?thesis using Suc c by simp
    qed
  qed
  then show ?case using len c by simp
qed

lemma chain_results_calls:
  assumes "chain_results run total_n nchains seed parallel sched ws g_main = Inr rs"
  shows "length rs = nchains
         \<and> (\<forall>C<nchains. \<exists>pr g n g'. run (seed + int C + 1) pr g = (Inr (rs ! C), n, g'))"
proof (cases "0 < parallel")
  case True
  with assms have j: "job_results (pool_execute run seed sched ws Map.empty) [0..<nchains] = Inr rs"
    by (auto simp: chain_results_def Let_def split: if_splits)
  have p: "\<forall>C r n. pool_execute run seed sched ws Map.empty C = Some (Inr r, n)
             \<longrightarrow> (\<exists>g g'. run (seed + int C + 1) True g = (Inr r, n, g'))"
    by (rule pool_execute_calls) simp
  from job_results_nth[OF j] have len: "length rs = nchains"
    and nth: "\<forall>i<nchains. \<exists>n. pool_execute run seed sched ws Map.empty ([0..<nchains] ! i)
                 = Some (Inr (rs ! i), n)" by simp_all
  have "\<forall>C<nchains. \<exists>pr g n g'. run (seed + int C + 1) pr g = (Inr (rs ! C), n, g')"
  proof (intro allI impI)
    fix C assume C: "C < nchains"
    with nth obtain n where
      "pool_execute run seed sched ws Map.empty C = Some (Inr (rs ! C), n)" by auto
    with p show "\<exists>pr g n g'. run (seed + int C + 1) pr g = (Inr (rs ! C), n, g')" by blast
  qed
  with len show ?thesis by blast
next
  case False
  with assms have s: "serial_results run seed [0..<nchains] g_main = Inr rs"
    by (simp add: chain_results_def)
  from serial_results_calls[OF s] have len: "length rs = nchains"
    and nth: "\<forall>i<nchains. \<exists>g1 n g'. run (seed + int ([0..<nchains] ! i) + 1) False g1
                 = (Inr (rs ! i), n, g')" by simp_all
  have "\<forall>C<nchains. \<exists>pr g n g'. run (seed + int C + 1) pr g = (Inr (rs ! C), n, g')"
  proof (intro allI impI)
    fix C assume C: "C < nchains"
    with nth obtain g1 n g' where
      "run (seed + int C + 1) False g1 = (Inr (rs ! C), n, g')" by auto
    then show "\<exists>pr g n g'. run (seed + int C + 1) pr g = (Inr (rs ! C), n, g')" by blast
  qed
  with len show ?thesis by blast
qed

lemma merge_foldl:
  "foldl (\<lambda>(ma, mp, ml) (A, P, L).
             (ma @ py_slice_from A d, mp @ py_slice_from P d, ml @ py_slice_from L d))
         (a, b, c) results
   = (a @ concat (map (\<lambda>(A, P, L). py_slice_from A d) results),
      b @ concat (map (\<lambda>(A, P, L). py_slice_from P d) results),
      c @ concat (map (\<lambda>(A, P, L). py_slice_from L d) results))"
  by (induction results arbitrary: a b c) (auto split: prod.splits)

lemma merge_results_equal_lengths:
  assumes "\<forall>(A, P, L) \<in> set results. length P = length A \<and> length L = length A"
  shows "merge_results d results =
           Inr (concat (map (\<lambda>(A, P, L). py_slice_from A d) results),
                concat (map (\<lambda>(A, P, L). py_slice_from P d) results),
                concat (map (\<lambda>(A, P, L). py_slice_from L d) results))
         \<and> length (concat (map (\<lambda>(A, P, L). py_slice_from P d) results))
             = length (concat (map (\<lambda>(A, P, L). py_slice_from A d) results))
         \<and> length (concat (map (\<lambda>(A, P, L). py_slice_from L d) results))
             = length (concat (map (\<lambda>(A, P, L). py_slice_from A d) results))"
proof -
  have "length (concat (map (\<lambda>(A, P, L). py_slice_from P d) results))
             = length (concat (map (\<lambda>(A, P, L). py_slice_from A d) results))
       \<and> length (concat (map (\<lambda>(A, P, L). py_slice_from L d) results))
             = length (concat (map (\<lambda>(A, P, L). py_slice_from A d) results))"
    using assms
    by (induction results) (auto simp: py_slice_from_def split: prod.splits)
  then show ?thesis
    by (simp add: merge_results_def merge_foldl)
qed

lemma length_concat_const:
  assumes "\<forall>x \<in> set xs. length (f x) = k"
  shows "length (concat (map f xs)) = length xs * k"
  using assms by (induction xs) auto

lemma discard_count_bounds:
  assumes "0 \<le> burnin" and "burnin \<le> 1" and "tpc < 2 ^ 53"
  shows "\<exists>d. discard_count burnin tpc = Inr (int d) \<and> d \<le> tpc"
proof -
  have f: "py_float_of_int (int tpc) = Inr (real tpc)"
    using binary64_of_nat[OF assms(3)] by (simp add: py_float_of_int_def)
  have x0: "0 \<le> burnin * real tpc" using assms(1) by simp
  have "burnin * real tpc \<le> 1 * real tpc"
    using assms(2) by (intro mult_right_mono) simp_all
  then have x1: "burnin * real tpc \<le> real tpc" by simp
  from binary64_between[OF x0 x1 assms(3)] obtain y where
    y: "binary64 (burnin * real tpc) = Fin y" "0 \<le> y" "y \<le> real tpc" by blast
  have d0: "0 \<le> py_round y" using y(2) by (rule py_round_nonneg)
  have "y \<le> of_int (int tpc)" using y(3) by simp
  then have d1: "py_round y \<le> int tpc" by (rule py_round_le_int)
  have "discard_count burnin tpc = Inr (py_round y)"
    by (simp add: discard_count_def f y(1))
  then have "discard_count burnin tpc = Inr (int (nat (py_round y))) \<and> nat (py_round y) \<le> tpc"
    using d0 d1 by simp
  then show ?thesis by blast
qed

text \<open>The float \<open>0.1\<close> is \<open>3602879701896397 / 2 ^ 55\<close>, the float \<open>0.8\<close> is
  \<open>3602879701896397 / 2 ^ 52\<close>.\<close>

lemma discard_count_near:
  assumes "tpc < 2 ^ 53" and "burnin * real tpc \<noteq> 0" and "\<bar>burnin * real tpc\<bar> < 2 ^ k"
    and "k \<le> 1000" and "\<bar>burnin * real tpc - of_int n\<bar> + 2 ^ k / 2 ^ 54 < 1 / 2"
  shows "discard_count burnin tpc = Inr n"
proof -
  have f: "py_float_of_int (int tpc) = Inr (real tpc)"
    using binary64_of_nat[OF assms(1)] by (simp add: py_float_of_int_def)
  from py_round_float_near[OF assms(2-5)] show ?thesis
    by (simp add: discard_count_def f)
qed

lemma discard_count_example_1: "discard_count (3602879701896397 / 36028797018963968) 1000 = Inr 100"
  by (rule discard_count_near[where k = 7]) simp_all

lemma discard_count_example_2: "discard_count (3602879701896397 / 4503599627370496) 10 = Inr 8"
  by (rule discard_count_near[where k = 4]) simp_all

lemma sample_trees_merge:
  assumes "0 < nchains" and "0 < tpc" and "tpc < 2 ^ 53" and "0 \<le> burnin" and "burnin \<le> 1"
    and "0 < tf" and "tf \<le> 1"
    and "chain_results (run_chain R init gen tpc tf) (nchains * tpc) nchains seed parallel
           sched ws g_main = Inr results"
  shows "\<exists>d r. discard_count burnin tpc = Inr (int d) \<and> d \<le> tpc
     \<and> py_round_float (binary64 (1 / tf)) = Inr r \<and> 1 \<le> r
     \<and> sample_trees (run_chain R init gen) tpc burnin nchains tf seed parallel sched ws g_main
         = Inr (concat (map (\<lambda>(A, P, L). drop d A) results),
                concat (map (\<lambda>(A, P, L). drop d P) results),
                concat (map (\<lambda>(A, P, L). drop d L) results))
     \<and> length (concat (map (\<lambda>(A, P, L). drop d P) results))
         = length (concat (map (\<lambda>(A, P, L). drop d A) results))
     \<and> length (concat (map (\<lambda>(A, P, L). drop d L) results))
         = length (concat (map (\<lambda>(A, P, L). drop d A) results))
     \<and> length results = nchains
     \<and> (\<forall>C<nchains. \<exists>pr g n g'.
           run_chain R init gen tpc tf (seed + int C + 1) pr g = (Inr (results ! C), n, g'))
     \<and> (\<forall>(A, P, L) \<in> set results.
           length A = 1 + (tpc - 1) div nat r
           \<and> length A - length (drop d A) = min d (length A))
     \<and> (tf = 1 \<longrightarrow>
           (\<forall>(A, P, L) \<in> set results. length A = tpc \<and> length A - length (drop d A) = d)
           \<and> length (concat (map (\<lambda>(A, P, L). drop d A) results)) = nchains * (tpc - d))"
proof -
  from discard_count_bounds[OF assms(4,5,3)] obtain d where
    d: "discard_count burnin tpc = Inr (int d)" "d \<le> tpc" by blast
  have sl: "\<And>xs :: 'x list. py_slice_from xs (int d) = drop d xs"
    by (simp add: py_slice_from_def)
  from chain_results_calls[OF assms(8)]
  have n: "length results = nchains"
    and calls: "\<forall>C<nchains. \<exists>pr g n g'.
           run_chain R init gen tpc tf (seed + int C + 1) pr g = (Inr (results ! C), n, g')"
    by blast+
  have out: "\<And>A P L. (A, P, L) \<in> set results \<Longrightarrow>
                \<exists>s pr g n g'. run_chain R init gen tpc tf s pr g = (Inr (A, P, L), n, g')"
  proof -
    fix A P L assume "(A, P, L) \<in> set results"
    then obtain C where C: "C < length results" "results ! C = (A, P, L)"
      by (auto simp: in_set_conv_nth)
    with calls n show "\<exists>s pr g n g'. run_chain R init gen tpc tf s pr g = (Inr (A, P, L), n, g')"
      by metis
  qed
  obtain A0 P0 L0 where r0: "results ! 0 = (A0, P0, L0)" by (cases "results ! 0")
  have "(A0, P0, L0) \<in> set results" using n assms(1) r0 by (metis nth_mem)
  from out[OF this] obtain s pr g n' g' where
    "run_chain R init gen tpc tf s pr g = (Inr (A0, P0, L0), n', g')" by blast
  from run_chain_lengths[OF this] obtain r where
    r: "py_round_float (binary64 (1 / tf)) = Inr r" "1 \<le> r" by blast
  have lens: "\<forall>(A, P, L) \<in> set results. length P = length A \<and> length L = length A
                \<and> length A = 1 + (tpc - 1) div nat r"
  proof (clarify)
    fix A P L assume "(A, P, L) \<in> set results"
    from out[OF this] obtain s pr g n g' where
      "run_chain R init gen tpc tf s pr g = (Inr (A, P, L), n, g')" by blast
    from run_chain_lengths[OF this] r(1)
    show "length P = length A \<and> length L = length A
                \<and> length A = 1 + (tpc - 1) div nat r" by auto
  qed
  then have eq: "\<forall>(A, P, L) \<in> set results. length P = length A \<and> length L = length A"
    by blast
  note m = merge_results_equal_lengths[OF eq, of "int d", unfolded sl]
  have st: "sample_trees (run_chain R init gen) tpc burnin nchains tf seed parallel sched ws g_main
         = Inr (concat (map (\<lambda>(A, P, L). drop d A) results),
                concat (map (\<lambda>(A, P, L). drop d P) results),
                concat (map (\<lambda>(A, P, L). drop d L) results))"
    using assms(1,2,4,5,6,7,8) m d(1) by (simp add: sample_trees_def Let_def)
  have each: "\<forall>(A, P, L) \<in> set results.
           length A = 1 + (tpc - 1) div nat r
           \<and> length A - length (drop d A) = min d (length A)"
    using lens by auto
  have full: "tf = 1 \<longrightarrow>
           (\<forall>(A, P, L) \<in> set results. length A = tpc \<and> length A - length (drop d A) = d)
           \<and> length (concat (map (\<lambda>(A, P, L). drop d A) results)) = nchains * (tpc - d)"
  proof
    assume tf1: "tf = 1"
    have "Inr r = (Inr 1 :: error + int)" using r(1) record_every_one unfolding tf1 by simp
    then have r1: "r = 1" by simp
    have a: "\<forall>(A, P, L) \<in> set results. length A = tpc"
      using lens assms(2) by (auto simp: r1)
    then have b: "\<forall>(A, P, L) \<in> set results. length A = tpc \<and> length A - length (drop d A) = d"
      using d(2) by auto
    have "\<forall>x \<in> set results. length ((\<lambda>(A, P, L). drop d A) x) = tpc - d"
      using a by auto
    from length_concat_const[OF this]
    have "length (concat (map (\<lambda>(A, P, L). drop d A) results)) = nchains * (tpc - d)"
      by (simp add: n)
    with b show "(\<forall>(A, P, L) \<in> set results. length A = tpc \<and> length A - length (drop d A) = d)
           \<and> length (concat (map (\<lambda>(A, P, L). drop d A) results)) = nchains * (tpc - d)"
      by blast
  qed
  show ?thesis
    using d r st m n calls each full by blast
qed

lemma serial_results_total:
  assumes "\<And>s g. \<exists>r n g'. run s False g = (Inr r, n, g')"
  shows "\<exists>rs. serial_results run seed Cs g = Inr rs"
proof (induction Cs arbitrary: g)
  case Nil
  then show ?case by simp
next
  case (Cons C Cs)
  from assms obtain r n g' where a: "run (seed + int C + 1) False g = (Inr r, n, g')" by blast
  from Cons.IH[of g'] obtain rs where "serial_results run seed Cs g' = Inr rs" by blast
  with a show ?case by simp
qed

lemma run_chain_total:
  assumes "1 < N" and "N \<le> 2 ^ 50" and "0 < tf" and "tf \<le> 1"
    and "py_round_float (binary64 (1 / tf)) = Inr r"
    and "\<And>s g. \<exists>x. init s g = Inr x"
    and "\<And>s g. \<exists>x. gen s g = Inr x"
  shows "\<exists>r n g'. run_chain R init gen N tf seed pr g = (Inr r, n, g')"
proof -
  from assms(6) obtain samp0 g0 where i: "init seed g = Inr (samp0, g0)" by fastforce
  have "\<forall>I<N. \<exists>s g. chain_state R gen (samp0, g0) I = Inr (s, g)"
    using chain_state_total[where gen = gen and R = R and sg = "(samp0, g0)"] assms(7) by blast
  from run_chain_samples[where init = init and seed = seed and g_in = g, OF assms(1-5) i this]
  show ?thesis by blast
qed

lemma toy_chain_results:
  assumes "1 < N" and "N \<le> 2 ^ 50" and "0 < tf" and "tf \<le> 1"
    and "py_round_float (binary64 (1 / tf)) = Inr r"
  shows "\<exists>rs. chain_results (run_chain toy_random toy_init toy_gen N tf) total_n nchains seed 0
                 sched ws g = Inr rs"
proof -
  have "\<And>s g. \<exists>r n g'. run_chain toy_random toy_init toy_gen N tf s False g = (Inr r, n, g')"
    by (rule run_chain_total[OF assms]) (simp_all add: toy_init_def toy_gen_def)
  from serial_results_total[where run = "run_chain toy_random toy_init toy_gen N tf", OF this]
  show ?thesis by (simp add: chain_results_def)
qed

lemma binary64_two: "binary64 2 = Fin 2"
  using binary64_of_nat[of 2] by simp

lemma toy_chain_loop:
  "r \<noteq> 0 \<Longrightarrow>
   chain_loop toy_random toy_gen r Is (samps, toy_sample, acc, g)
     = Inr (samps @ replicate (length (filter (\<lambda>I. int I mod r = 0) Is)) toy_sample,
            toy_sample, acc + length Is, g + int (length Is))"
proof (induction Is arbitrary: samps acc g)
  case Nil
  then show ?case by simp
next
  case (Cons I Is)
  show ?case
    using Cons.prems Cons.IH[OF Cons.prems]
    by (simp add: toy_mh_step replicate_app_Cons_same)
qed

lemma toy_run_10:
  "run_chain toy_random toy_init toy_gen 10 (1 / 2) 8 False 0
     = (Inr (replicate 5 [[1]], replicate 5 (), replicate 5 0), 0, 17)"
proof -
  have r: "py_round_float (binary64 (1 / (1 / 2))) = Inr 2"
    using py_round_of_int[of 2] by (simp add: binary64_two)
  have b: "real (2::nat) \<le> 2 ^ 1024"
  proof -
    have "(2::real) ^ 1 \<le> 2 ^ 1024" by (intro power_increasing) simp_all
    then show ?thesis by simp
  qed
  from py_true_div_floor[of 9 2, OF _ _ b] obtain q where
    q: "py_true_div 9 2 = Inr q" "\<lfloor>q\<rfloor> = 4" by auto
  have b9: "real (9::nat) \<le> 2 ^ 1024"
  proof -
    have "(9::real) \<le> 2 ^ 4" by simp
    also have "\<dots> \<le> (2::real) ^ 1024" by (intro power_increasing) simp_all
    finally show ?thesis by simp
  qed
  from py_true_div_floor[of 9 9, OF _ _ b9] obtain ar where
    ar: "py_true_div 9 9 = Inr ar" by auto
  have u: "length (filter (\<lambda>I. int I mod 2 = 0) [1..<10]) = 4"
    by (simp add: upt_rec)
  have l: "chain_loop toy_random toy_gen 2 [1..<10] ([toy_sample], toy_sample, 0, 8)
             = Inr ([toy_sample] @ replicate 4 toy_sample, toy_sample, 9, 17)"
    using toy_chain_loop[of 2 "[1..<10]" "[toy_sample]" 0 8] u by simp
  have t: "(0::real) < 1 / 2 \<and> (1::real) / 2 \<le> 1" by simp
  have i: "toy_init 8 0 = Inr (toy_sample, 8)" by (simp add: toy_init_def)
  have n: "int 10 - 1 = 9" "int 9 = 9" by simp_all
  have "run_chain toy_random toy_init toy_gen 10 (1 / 2) 8 False 0
     = (Inr (map adj ([toy_sample] @ replicate 4 toy_sample),
             map phi ([toy_sample] @ replicate 4 toy_sample),
             map llh_phi ([toy_sample] @ replicate 4 toy_sample)), 0, 17)"
    unfolding run_chain_def
    by (simp only: r t i n q ar l Let_def sum.case prod.case if_True if_False simp_thms
          not_True_eq_False zero_less_numeral) simp
  then show ?thesis by (simp add: toy_sample_def numeral_eq_Suc)
qed

text \<open>
  Claim C6 (amended). When \<open>trees_per_chain < 2 ^ 53\<close> and the chains of a run all
  return, \<open>sample_trees\<close> returns, for \<open>d = round(burnin * trees_per_chain)\<close> (the float
  product rounded), the concatenation in chain order of each chain's lists without their
  first \<open>d\<close> entries: entry \<open>C\<close> of \<open>results\<close> is what the call of \<open>_run_chain\<close> with
  seed \<open>seed + C + 1\<close> has returned. The three lists have equal lengths. A chain's list
  has \<open>1 + floor((trees_per_chain - 1) / r)\<close> entries, \<open>r = round(1 / thinned_frac)\<close>, so
  \<open>min(d, that length)\<close> of them are dropped. With thinning fraction 1 the list has
  \<open>trees_per_chain\<close> entries, exactly \<open>d\<close> are dropped, and 4 chains of 1000 with
  \<open>burnin = 0.1\<close> (the float \<open>3602879701896397 / 2 ^ 55\<close>) give \<open>d = 100\<close> and 3600.
\<close>

theorem sample_trees_burnin_merge:
  assumes "0 < nchains" and "0 < tpc" and "tpc < 2 ^ 53" and "0 \<le> burnin" and "burnin \<le> 1"
    and "0 < tf" and "tf \<le> 1"
    and "chain_results (run_chain R init gen tpc tf) (nchains * tpc) nchains seed parallel
           sched ws g_main = Inr results"
  shows "\<exists>d r. discard_count burnin tpc = Inr (int d) \<and> d \<le> tpc
     \<and> py_round_float (binary64 (1 / tf)) = Inr r \<and> 1 \<le> r
     \<and> sample_trees (run_chain R init gen) tpc burnin nchains tf seed parallel sched ws g_main
         = Inr (concat (map (\<lambda>(A, P, L). drop d A) results),
                concat (map (\<lambda>(A, P, L). drop d P) results),
                concat (map (\<lambda>(A, P, L). drop d L) results))
     \<and> length (concat (map (\<lambda>(A, P, L). drop d P) results))
         = length (concat (map (\<lambda>(A, P, L). drop d A) results))
     \<and> length (concat (map (\<lambda>(A, P, L). drop d L) results))
         = length (concat (map (\<lambda>(A, P, L). drop d A) results))
     \<and> length results = nchains
     \<and> (\<forall>C<nchains. \<exists>pr g n g'.
           run_chain R init gen tpc tf (seed + int C + 1) pr g = (Inr (results ! C), n, g'))
     \<and> (\<forall>(A, P, L) \<in> set results.
           length A = 1 + (tpc - 1) div nat r
           \<and> length A - length (drop d A) = min d (length A))
     \<and> (tf = 1 \<longrightarrow>
           (\<forall>(A, P, L) \<in> set results. length A = tpc \<and> length A - length (drop d A) = d)
           \<and> length (concat (map (\<lambda>(A, P, L). drop d A) results)) = nchains * (tpc - d))
     \<and> (nchains = 4 \<and> tpc = 1000 \<and> burnin = 3602879701896397 / 36028797018963968 \<and> tf = 1
           \<longrightarrow> d = 100 \<and> length (concat (map (\<lambda>(A, P, L). drop d A) results)) = 3600)"
proof -
  from sample_trees_merge[OF assms] obtain d r where
    d: "discard_count burnin tpc = Inr (int d)" "d \<le> tpc"
    and r: "py_round_float (binary64 (1 / tf)) = Inr r" "1 \<le> r"
    and st: "sample_trees (run_chain R init gen) tpc burnin nchains tf seed parallel sched ws g_main
         = Inr (concat (map (\<lambda>(A, P, L). drop d A) results),
                concat (map (\<lambda>(A, P, L). drop d P) results),
                concat (map (\<lambda>(A, P, L). drop d L) results))"
    and l1: "length (concat (map (\<lambda>(A, P, L). drop d P) results))
         = length (concat (map (\<lambda>(A, P, L). drop d A) results))"
    and l2: "length (concat (map (\<lambda>(A, P, L). drop d L) results))
         = length (concat (map (\<lambda>(A, P, L). drop d A) results))"
    and n: "length results = nchains"
    and calls: "\<forall>C<nchains. \<exists>pr g n g'.
           run_chain R init gen tpc tf (seed + int C + 1) pr g = (Inr (results ! C), n, g')"
    and each: "\<forall>(A, P, L) \<in> set results.
           length A = 1 + (tpc - 1) div nat r
           \<and> length A - length (drop d A) = min d (length A)"
    and full: "tf = 1 \<longrightarrow>
           (\<forall>(A, P, L) \<in> set results. length A = tpc \<and> length A - length (drop d A) = d)
           \<and> length (concat (map (\<lambda>(A, P, L). drop d A) results)) = nchains * (tpc - d)"
    by blast
  have ex: "nchains = 4 \<and> tpc = 1000 \<and> burnin = 3602879701896397 / 36028797018963968 \<and> tf = 1
           \<longrightarrow> d = 100 \<and> length (concat (map (\<lambda>(A, P, L). drop d A) results)) = 3600"
  proof
    assume a: "nchains = 4 \<and> tpc = 1000 \<and> burnin = 3602879701896397 / 36028797018963968 \<and> tf = 1"
    then have b: "burnin = 3602879701896397 / 36028797018963968" and t: "tpc = 1000"
      and nc: "nchains = 4" and tf1: "tf = 1"
      by blast+
    have "Inr (int d) = (Inr 100 :: error + int)"
      using d(1) discard_count_example_1 unfolding b t by simp
    then have d100: "d = 100" by simp
    with full tf1 nc t
    show "d = 100 \<and> length (concat (map (\<lambda>(A, P, L). drop d A) results)) = 3600"
      by simp
  qed
  show ?thesis
    using d r st l1 l2 n calls each full ex by blast
qed

theorem sample_trees_burnin_merge_witness:
  "\<exists>ma mp ml.
     sample_trees (run_chain toy_random toy_init toy_gen) 1000
         (3602879701896397 / 36028797018963968) 4 1 7 0 [] (\<lambda>w. 0) 0
       = Inr (ma, mp, ml)
     \<and> length ma = 3600 \<and> length mp = 3600 \<and> length ml = 3600"
proof -
  let ?b = "3602879701896397 / 36028797018963968 :: real"
  from toy_chain_results[of 1000 1 1 "4 * 1000" 4 7 "[]" "\<lambda>w. 0" 0] record_every_one
  obtain results where
    c: "chain_results (run_chain toy_random toy_init toy_gen 1000 1) (4 * 1000) 4 7 0 []
          (\<lambda>w. 0) 0 = Inr results"
    by auto
  have "\<exists>d r. discard_count ?b 1000 = Inr (int d) \<and> d \<le> 1000
     \<and> py_round_float (binary64 (1 / 1)) = Inr r \<and> 1 \<le> r
     \<and> sample_trees (run_chain toy_random toy_init toy_gen) 1000 ?b 4 1 7 0 [] (\<lambda>w. 0) 0
         = Inr (concat (map (\<lambda>(A, P, L). drop d A) results),
                concat (map (\<lambda>(A, P, L). drop d P) results),
                concat (map (\<lambda>(A, P, L). drop d L) results))
     \<and> length (concat (map (\<lambda>(A, P, L). drop d P) results))
         = length (concat (map (\<lambda>(A, P, L). drop d A) results))
     \<and> length (concat (map (\<lambda>(A, P, L). drop d L) results))
         = length (concat (map (\<lambda>(A, P, L). drop d A) results))
     \<and> length results = 4
     \<and> (\<forall>C<4. \<exists>pr g n g'.
           run_chain toy_random toy_init toy_gen 1000 1 (7 + int C + 1) pr g
             = (Inr (results ! C), n, g'))
     \<and> (\<forall>(A, P, L) \<in> set results.
           length A = 1 + (1000 - 1) div nat r
           \<and> length A - length (drop d A) = min d (length A))
     \<and> ((1::real) = 1 \<longrightarrow>
           (\<forall>(A, P, L) \<in> set results. length A = 1000 \<and> length A - length (drop d A) = d)
           \<and> length (concat (map (\<lambda>(A, P, L). drop d A) results)) = 4 * (1000 - d))
     \<and> ((4::nat) = 4 \<and> (1000::nat) = 1000 \<and> ?b = 3602879701896397 / 36028797018963968
          \<and> (1::real) = 1
           \<longrightarrow> d = 100 \<and> length (concat (map (\<lambda>(A, P, L). drop d A) results)) = 3600)"
    by (rule sample_trees_burnin_merge[where nchains = 4 and tpc = 1000 and burnin = ?b
          and tf = 1 and results = results, OF _ _ _ _ _ _ _ c]) simp_all
  then obtain d where
    st: "sample_trees (run_chain toy_random toy_init toy_gen) 1000 ?b 4 1 7 0 [] (\<lambda>w. 0) 0
         = Inr (concat (map (\<lambda>(A, P, L). drop d A) results),
                concat (map (\<lambda>(A, P, L). drop d P) results),
                concat (map (\<lambda>(A, P, L). drop d L) results))"
    and l1: "length (concat (map (\<lambda>(A, P, L). drop d P) results))
         = length (concat (map (\<lambda>(A, P, L). drop d A) results))"
    and l2: "length (concat (map (\<lambda>(A, P, L). drop d L) results))
         = length (concat (map (\<lambda>(A, P, L). drop d A) results))"
    and l3: "(4::nat) = 4 \<and> (1000::nat) = 1000 \<and> ?b = 3602879701896397 / 36028797018963968
          \<and> (1::real) = 1
           \<longrightarrow> d = 100 \<and> length (concat (map (\<lambda>(A, P, L). drop d A) results)) = 3600"
    by blast
  from l3 have "length (concat (map (\<lambda>(A, P, L). drop d A) results)) = 3600" by blast
  with st l1 l2 show ?thesis by simp
qed

text \<open>
  Claim C6 as stated does not hold: one chain of 10 iterations with thinning fraction
  0.5 retains 5 samples; with \<open>burnin = 0.8\<close> (the float \<open>3602879701896397 / 2 ^ 52\<close>)
  the prefix to cut has \<open>round(0.8 * 10) = 8\<close> entries, the slice is empty, and 5 samples
  are dropped, not 8.
\<close>

theorem sample_trees_burnin_counterexample:
  "fst (run_chain toy_random toy_init toy_gen 10 (1 / 2) (7 + int 0 + 1) False 0)
     = Inr (replicate 5 [[1]], replicate 5 (), replicate 5 0)
   \<and> discard_count (3602879701896397 / 4503599627370496) 10 = Inr 8
   \<and> sample_trees (run_chain toy_random toy_init toy_gen) 10
        (3602879701896397 / 4503599627370496) 1 (1 / 2) 7 0 [] (\<lambda>w. 0) 0
       = Inr ([], [], [])"
proof -
  let ?b = "3602879701896397 / 4503599627370496 :: real"
  note p = discard_count_example_2
  have u: "[0..<1] = [0]" by simp
  have c: "chain_results (run_chain toy_random toy_init toy_gen 10 (1 / 2)) (1 * 10) 1 7 0 []
              (\<lambda>w. 0) 0 = Inr [(replicate 5 [[1]], replicate 5 (), replicate 5 0)]"
    unfolding chain_results_def u by (simp add: toy_run_10)
  have m: "merge_results 8 [(replicate 5 [[1::int]], replicate 5 (), replicate 5 (0::real))]
             = Inr ([], [], [])"
    by (simp add: merge_results_def py_slice_from_def)
  have b: "(0::real) \<le> ?b \<and> ?b \<le> 1" by simp
  have "sample_trees (run_chain toy_random toy_init toy_gen) 10 ?b 1 (1 / 2) 7 0 [] (\<lambda>w. 0) 0
       = Inr ([], [], [])"
    unfolding sample_trees_def using c p m b by (simp add: Let_def)
  then show ?thesis using p toy_run_10 by simp
qed

section \<open>The tree builder\<close>

lemma make_adj_inner_raises:
  assumes "\<forall>J \<in> set Js. - 5 \<le> relations ! I ! J \<and> relations ! I ! J < 5"
  shows "if \<exists>J \<in> set Js. unexpected relations I J
         then is_cannot_build (make_adj_inner relations I Js (a, p))
         else \<exists>st. make_adj_inner relations I Js (a, p) = Inr st"
  using assms
proof (induction Js arbitrary: a p)
  case Nil
  show ?case by simp
next
  case (Cons J Js)
  have rest: "\<forall>J \<in> set Js. - 5 \<le> relations ! I ! J \<and> relations ! I ! J < 5"
    and rj: "- 5 \<le> relations ! I ! J \<and> relations ! I ! J < 5"
    using Cons.prems by simp_all
  show ?case
  proof (cases "unexpected relations I J")
    case True
    then have "is_cannot_build (make_adj_inner relations I (J # Js) (a, p))"
      using rj by (simp add: unexpected_def is_cannot_build_def Let_def)
    with True show ?thesis by simp
  next
    case False
    then have e: "(\<exists>J' \<in> set (J # Js). unexpected relations I J')
                    = (\<exists>J' \<in> set Js. unexpected relations I J')"
      by simp
    have "\<exists>a' p'. make_adj_inner relations I (J # Js) (a, p)
                     = make_adj_inner relations I Js (a', p')"
    proof (cases "relations ! I ! J = B_A")
      case True
      show ?thesis
      proof (cases p)
        case True
        with \<open>relations ! I ! J = B_A\<close> show ?thesis by auto
      next
        case False
        with \<open>relations ! I ! J = B_A\<close> show ?thesis by auto
      qed
    next
      case nB: False
      with False have "relations ! I ! J = diff_branches" by (simp add: unexpected_def)
      with nB show ?thesis by auto
    qed
    then obtain a' p' where
      step: "make_adj_inner relations I (J # Js) (a, p) = make_adj_inner relations I Js (a', p')"
      by blast
    show ?thesis unfolding e step by (rule Cons.IH[OF rest])
  qed
qed

lemma make_adj_outer_raises:
  assumes "\<forall>I \<in> set Is. \<forall>J < I. - 5 \<le> relations ! I ! J \<and> relations ! I ! J < 5"
  shows "if \<exists>I \<in> set Is. \<exists>J < I. unexpected relations I J
         then is_cannot_build (make_adj_outer relations Is a)
         else \<exists>r. make_adj_outer relations Is a = Inr r"
  using assms
proof (induction Is arbitrary: a)
  case Nil
  show ?case by simp
next
  case (Cons I Is)
  have rng: "\<forall>J \<in> set (rev [0..<I]). - 5 \<le> relations ! I ! J \<and> relations ! I ! J < 5"
    using Cons.prems by simp
  have rest: "\<forall>I \<in> set Is. \<forall>J < I. - 5 \<le> relations ! I ! J \<and> relations ! I ! J < 5"
    using Cons.prems by simp
  note inner = make_adj_inner_raises[OF rng, of a False]
  show ?case
  proof (cases "\<exists>J \<in> set (rev [0..<I]). unexpected relations I J")
    case True
    with inner have "is_cannot_build (make_adj_inner relations I (rev [0..<I]) (a, False))"
      by simp
    then have "is_cannot_build (make_adj_outer relations (I # Is) a)"
      by (auto simp: is_cannot_build_def)
    moreover from True have "\<exists>I' \<in> set (I # Is). \<exists>J < I'. unexpected relations I' J"
      by auto
    ultimately show ?thesis by simp
  next
    case False
    with inner obtain a' p' where
      i: "make_adj_inner relations I (rev [0..<I]) (a, False) = Inr (a', p')" by fastforce
    have o: "make_adj_outer relations (I # Is) a = make_adj_outer relations Is a'"
      using i by simp
    have e: "(\<exists>I' \<in> set (I # Is). \<exists>J < I'. unexpected relations I' J)
               = (\<exists>I' \<in> set Is. \<exists>J < I'. unexpected relations I' J)"
      using False by auto
    show ?thesis unfolding o e by (rule Cons.IH[OF rest])
  qed
qed

lemma well_formed_relations_entry:
  assumes "well_formed_relations relations" and "I < length relations" and "J < length relations"
  shows "0 \<le> relations ! I ! J \<and> relations ! I ! J < 5"
proof -
  have r: "relations ! I \<in> set relations" using assms(2) by simp
  with assms(1) have l: "length (relations ! I) = length relations"
    by (simp add: well_formed_relations_def)
  then have "relations ! I ! J \<in> set (relations ! I)" using assms(3) by simp
  with assms(1) r show ?thesis unfolding well_formed_relations_def by blast
qed

lemma make_adj_raises_iff:
  assumes "well_formed_relations relations"
  shows "if relations ! 1 ! 0 \<noteq> B_A
            \<or> (\<exists>I J. J < I \<and> I < length relations \<and> unexpected relations I J)
         then is_cannot_build (make_adj relations)
         else \<exists>r. make_adj relations = Inr r"
proof -
  let ?N = "length relations"
  have N: "2 \<le> ?N" and sq: "\<forall>row \<in> set relations. length row = ?N"
    using assms by (auto simp: well_formed_relations_def)
  have rng: "\<forall>I \<in> set [2..<?N]. \<forall>J < I. - 5 \<le> relations ! I ! J \<and> relations ! I ! J < 5"
  proof (intro ballI allI impI)
    fix I J assume "I \<in> set [2..<?N]" "J < I"
    then have "I < ?N" "J < ?N" by simp_all
    from well_formed_relations_entry[OF assms this]
    show "- 5 \<le> relations ! I ! J \<and> relations ! I ! J < 5" by simp
  qed
  note outer = make_adj_outer_raises[OF rng, of "set_entry (np_eye ?N) 0 1 1"]
  show ?thesis
  proof (cases "relations ! 1 ! 0 = B_A")
    case False
    then show ?thesis using N sq by (simp add: make_adj_def Let_def is_cannot_build_def)
  next
    case True
    then have nb: "\<not> unexpected relations 1 0" by (simp add: unexpected_def)
    have m: "make_adj relations = make_adj_outer relations [2..<?N] (set_entry (np_eye ?N) 0 1 1)"
      using True N sq by (simp add: make_adj_def Let_def)
    have split: "(\<exists>I J. J < I \<and> I < ?N \<and> unexpected relations I J) \<longleftrightarrow>
                 (\<exists>I \<in> set [2..<?N]. \<exists>J < I. unexpected relations I J)"
    proof
      assume "\<exists>I J. J < I \<and> I < ?N \<and> unexpected relations I J"
      then obtain I J where h: "J < I" "I < ?N" "unexpected relations I J" by blast
      have "I \<noteq> 1"
      proof
        assume "I = 1"
        with h have "J = 0" by simp
        with h \<open>I = 1\<close> nb show False by simp
      qed
      with h have "I \<in> set [2..<?N]" by simp
      with h show "\<exists>I \<in> set [2..<?N]. \<exists>J < I. unexpected relations I J" by blast
    next
      assume "\<exists>I \<in> set [2..<?N]. \<exists>J < I. unexpected relations I J"
      then obtain I J where "I \<in> set [2..<?N]" "J < I" "unexpected relations I J" by blast
      then have "J < I \<and> I < ?N \<and> unexpected relations I J" by simp
      then show "\<exists>I J. J < I \<and> I < ?N \<and> unexpected relations I J" by blast
    qed
    show ?thesis using outer True unfolding m split by simp
  qed
qed

text \<open>
  Claim C7 says that \<open>make_adj\<close> either raises \<open>CannotBuildTreeException\<close> or returns a
  valid tree. On the complete 3 by 3 relation matrix in which node 1 is a child of node 0
  and node 2 is on a different branch from both, no entry is unexpected, nothing is
  raised, and node 2 is left without a parent: the returned matrix fails
  \<open>_ensure_valid_tree\<close>.
\<close>

theorem make_adj_orphan_node:
  "well_formed_relations [[1, 2, 4], [3, 1, 4], [4, 4, 1]]
   \<and> make_adj [[1, 2, 4], [3, 1, 4], [4, 4, 1]] = Inr [[1, 1, 0], [0, 1, 0], [0, 0, 1]]
   \<and> sum_axis0 [[1, 1, 0], [0, 1, 0], [0, 0, 1]] = [1, 2, 1]
   \<and> ensure_valid_tree [[1, 1, 0], [0, 1, 0], [0, 0, 1]] = Inl AssertionError"
  by code_simp

theorem make_adj_orphan_node_witness:
  "\<exists>r. make_adj [[1, 2, 4], [3, 1, 4], [4, 4, 1]] = Inr r
        \<and> sum_axis0 r \<noteq> [1, 2, 2] \<and> ensure_valid_tree r \<noteq> Inr ()"
  using make_adj_orphan_node by simp

section \<open>Trees: the traversal, the column sums and the ancestry\<close>

subsection \<open>Graph facts\<close>

lemma edges_bound: "(i, j) \<in> edges a \<Longrightarrow> i < length a \<and> j < length a \<and> i \<noteq> j"
  by (simp add: edges_def)

lemma edges_rtrancl_bound: "(i, j) \<in> (edges a)\<^sup>* \<Longrightarrow> i < length a \<Longrightarrow> j < length a"
  by (induction rule: rtrancl_induct) (auto dest: edges_bound)

lemma edges_trancl_bound: "(i, j) \<in> (edges a)\<^sup>+ \<Longrightarrow> i < length a \<and> j < length a"
  by (induction rule: trancl_induct) (auto dest: edges_bound)

text \<open>Unique parents make the ancestors of a node a chain.\<close>

lemma ancestors_chain:
  assumes up: "\<forall>i i' j. (i, j) \<in> E \<longrightarrow> (i', j) \<in> E \<longrightarrow> i = i'"
    and "(c, x) \<in> E\<^sup>*" and "(c', x) \<in> E\<^sup>*"
  shows "(c, c') \<in> E\<^sup>* \<or> (c', c) \<in> E\<^sup>*"
  using assms(2,3)
proof (induction rule: rtrancl_induct)
  case base
  then show ?case by simp
next
  case (step y z)
  show ?case
  proof (cases "c' = z")
    case True
    with step.hyps show ?thesis by auto
  next
    case False
    with step.prems obtain y' where "(c', y') \<in> E\<^sup>*" "(y', z) \<in> E"
      by (meson rtranclE)
    with up step.hyps(2) have "(c', y) \<in> E\<^sup>*" by blast
    with step.IH show ?thesis .
  qed
qed

text \<open>With unique parents, a node on a cycle that is reached from the root puts the root on a cycle.\<close>

lemma cycle_reaches_root:
  assumes up: "\<forall>i i' j. (i, j) \<in> E \<longrightarrow> (i', j) \<in> E \<longrightarrow> i = i'"
    and "(r, x) \<in> E\<^sup>*" and "(x, x) \<in> E\<^sup>+"
  shows "(r, r) \<in> E\<^sup>+"
  using assms(2,3)
proof (induction rule: rtrancl_induct)
  case base
  then show ?case .
next
  case (step y z)
  from step.prems obtain w where w: "(z, w) \<in> E\<^sup>*" "(w, z) \<in> E"
    by (meson tranclE rtrancl_eq_or_trancl trancl_into_rtrancl)
  with up step.hyps(2) have "w = y" by blast
  with w step.hyps(2) have "(y, y) \<in> E\<^sup>+" by (meson rtrancl_into_trancl2)
  then show ?case by (rule step.IH)
qed

lemma is_tree_acyclic:
  assumes "is_tree a"
  shows "(x, x) \<notin> (edges a)\<^sup>+"
proof
  assume c: "(x, x) \<in> (edges a)\<^sup>+"
  then have "x < length a" by (auto dest: edges_trancl_bound)
  with assms have r: "(0, x) \<in> (edges a)\<^sup>*" by (simp add: is_tree_def)
  have up: "\<forall>i i' j. (i, j) \<in> edges a \<longrightarrow> (i', j) \<in> edges a \<longrightarrow> i = i'"
    using assms unfolding is_tree_def by blast
  from cycle_reaches_root[OF up r c] have "(0, 0) \<in> (edges a)\<^sup>+" .
  then obtain w where "(w, 0) \<in> edges a" by (meson tranclE)
  with assms show False by (simp add: is_tree_def)
qed

subsection \<open>Array facts\<close>

lemma is_square01_row:
  "is_square01 a \<Longrightarrow> i < length a \<Longrightarrow> length (a ! i) = length a"
  by (simp add: is_square01_def)

lemma is_square01_entry:
  "is_square01 a \<Longrightarrow> i < length a \<Longrightarrow> j < length a \<Longrightarrow> a ! i ! j = 0 \<or> a ! i ! j = 1"
  by (metis is_square01_def nth_mem)

lemma set_flatnonzero: "set (flatnonzero row) = {j. j < length row \<and> row ! j \<noteq> 0}"
  by (auto simp: flatnonzero_def)

lemma distinct_flatnonzero: "distinct (flatnonzero row)"
  by (simp add: flatnonzero_def)

lemma length_fill_diagonal: "length (fill_diagonal m v) = length m"
  by (simp add: fill_diagonal_def)

lemma nth_fill_diagonal: "i < length m \<Longrightarrow> fill_diagonal m v ! i = (m ! i)[i := v]"
  by (simp add: fill_diagonal_def)

lemma fill_diagonal_entry:
  "i < length m \<Longrightarrow> j < length (m ! i) \<Longrightarrow>
     fill_diagonal m v ! i ! j = (if i = j then v else m ! i ! j)"
  by (auto simp: nth_fill_diagonal)

text \<open>The rows of the matrix without its diagonal list the children.\<close>

lemma children_fill_diagonal:
  assumes "is_square01 a" and "P < length a"
  shows "set (flatnonzero (fill_diagonal a 0 ! P)) = {c. (P, c) \<in> edges a}"
proof -
  have len: "length (a ! P) = length a" using assms by (rule is_square01_row)
  have "\<And>j. j < length a \<Longrightarrow> (fill_diagonal a 0 ! P ! j \<noteq> 0) = (P \<noteq> j \<and> a ! P ! j = 1)"
    using assms len is_square01_entry[OF assms(1) assms(2)]
    by (auto simp: fill_diagonal_entry)
  then show ?thesis
    using assms len by (auto simp: set_flatnonzero nth_fill_diagonal edges_def)
qed

subsection \<open>The traversal of \<open>_ensure_valid_tree\<close>\<close>

lemma ensure_loop_sound:
  assumes "ensure_valid_tree_loop m stack visited = Inr V"
    and "\<forall>P < length m. P \<in> S \<longrightarrow> set (flatnonzero (m ! P)) \<subseteq> S"
    and "set stack \<subseteq> S" and "visited \<subseteq> S"
  shows "V \<subseteq> S"
  using assms
proof (induction m stack visited rule: ensure_valid_tree_loop.induct)
  case (1 adj visited)
  then show ?case by simp
next
  case (2 adj P stack visited)
  from "2.prems"(1) have np: "P \<notin> visited" and lt: "\<not> length adj \<le> P"
    by (auto split: if_splits)
  with "2.prems"(1) have
    r: "ensure_valid_tree_loop adj (rev (flatnonzero (adj ! P)) @ stack) (insert P visited) = Inr V"
    by simp
  have "P \<in> S" using "2.prems"(3) by simp
  with "2.prems"(2) lt have "set (flatnonzero (adj ! P)) \<subseteq> S" by simp
  with "2.prems"(3,4) \<open>P \<in> S\<close>
  have "set (rev (flatnonzero (adj ! P)) @ stack) \<subseteq> S" "insert P visited \<subseteq> S" by auto
  from "2.IH"[OF np lt r "2.prems"(2) this] show ?case .
qed

lemma rtrancl_image_unfold: "G\<^sup>* `` {P} = insert P (G\<^sup>* `` (G `` {P}))"
proof
  show "G\<^sup>* `` {P} \<subseteq> insert P (G\<^sup>* `` (G `` {P}))"
  proof
    fix x assume "x \<in> G\<^sup>* `` {P}"
    then have "(P, x) \<in> G\<^sup>*" by simp
    then show "x \<in> insert P (G\<^sup>* `` (G `` {P}))"
      by (cases rule: converse_rtranclE) auto
  qed
  show "insert P (G\<^sup>* `` (G `` {P})) \<subseteq> G\<^sup>* `` {P}"
    by (auto intro: converse_rtrancl_into_rtrancl)
qed

lemma ensure_loop_complete:
  assumes "\<forall>i i' j. (i, j) \<in> row_graph m \<longrightarrow> (i', j) \<in> row_graph m \<longrightarrow> i = i'"
    and "\<forall>x. (x, x) \<notin> (row_graph m)\<^sup>+"
    and "distinct stack"
    and "set stack \<subseteq> {..<length m}"
    and "\<forall>s \<in> set stack. \<forall>t \<in> set stack. s \<noteq> t \<longrightarrow>
           (row_graph m)\<^sup>* `` {s} \<inter> (row_graph m)\<^sup>* `` {t} = {}"
    and "visited \<inter> (row_graph m)\<^sup>* `` set stack = {}"
    and "visited \<union> (row_graph m)\<^sup>* `` set stack = {..<length m}"
  shows "ensure_valid_tree_loop m stack visited = Inr {..<length m}"
  using assms
proof (induction m stack visited rule: ensure_valid_tree_loop.induct)
  case (1 adj visited)
  then show ?case by simp
next
  case (2 adj P stack visited)
  let ?G = "row_graph adj"
  let ?C = "flatnonzero (adj ! P)"
  note up = "2.prems"(1) and acyc = "2.prems"(2)
  have Plt: "P < length adj" using "2.prems"(4) by simp
  have Pnv: "P \<notin> visited" using "2.prems"(6) by auto
  have C: "set ?C = ?G `` {P}" using Plt by (auto simp: row_graph_def)
  have Pns: "P \<notin> set stack" and ds: "distinct stack" using "2.prems"(3) by simp_all
  have dP: "\<And>t. t \<in> set stack \<Longrightarrow> ?G\<^sup>* `` {P} \<inter> ?G\<^sup>* `` {t} = {}"
    using "2.prems"(5) Pns by (metis list.set_intros(1) list.set_intros(2))
  have sub: "\<And>c. c \<in> set ?C \<Longrightarrow> ?G\<^sup>* `` {c} \<subseteq> ?G\<^sup>* `` {P}"
    using C by (auto intro: converse_rtrancl_into_rtrancl)
  have PnC: "\<And>c. c \<in> set ?C \<Longrightarrow> P \<notin> ?G\<^sup>* `` {c}"
  proof
    fix c assume "c \<in> set ?C" "P \<in> ?G\<^sup>* `` {c}"
    then have "(P, c) \<in> ?G" "(c, P) \<in> ?G\<^sup>*" using C by auto
    then have "(P, P) \<in> ?G\<^sup>+" by (rule rtrancl_into_trancl2)
    with acyc show False by blast
  qed
  have i3: "distinct (rev ?C @ stack)"
  proof -
    have "set ?C \<inter> set stack = {}"
    proof (rule ccontr)
      assume "set ?C \<inter> set stack \<noteq> {}"
      then obtain c where c: "c \<in> set ?C" "c \<in> set stack" by blast
      from sub[OF c(1)] have "c \<in> ?G\<^sup>* `` {P}" by auto
      moreover have "c \<in> ?G\<^sup>* `` {c}" by simp
      ultimately show False using dP[OF c(2)] by blast
    qed
    then show ?thesis using ds by (simp add: distinct_flatnonzero)
  qed
  have all: "?G\<^sup>* `` {P} \<subseteq> {..<length adj}"
    using "2.prems"(7) by auto
  have i4: "set (rev ?C @ stack) \<subseteq> {..<length adj}"
  proof -
    have "set ?C \<subseteq> ?G\<^sup>* `` {P}" using C by auto
    with all have "set ?C \<subseteq> {..<length adj}" by blast
    then show ?thesis using "2.prems"(4) by simp
  qed
  have kids: "\<And>c c'. c \<in> set ?C \<Longrightarrow> c' \<in> set ?C \<Longrightarrow> c \<noteq> c' \<Longrightarrow>
              ?G\<^sup>* `` {c} \<inter> ?G\<^sup>* `` {c'} = {}"
  proof (rule ccontr)
    fix c c'
    assume c: "c \<in> set ?C" "c' \<in> set ?C" "c \<noteq> c'"
      and "?G\<^sup>* `` {c} \<inter> ?G\<^sup>* `` {c'} \<noteq> {}"
    then obtain x where x: "(c, x) \<in> ?G\<^sup>*" "(c', x) \<in> ?G\<^sup>*" by auto
    have e: "(P, c) \<in> ?G" "(P, c') \<in> ?G" using c C by auto
    have sym: "\<And>u v. (P, u) \<in> ?G \<Longrightarrow> (P, v) \<in> ?G \<Longrightarrow> u \<noteq> v \<Longrightarrow> (u, v) \<in> ?G\<^sup>* \<Longrightarrow> False"
    proof -
      fix u v assume h: "(P, u) \<in> ?G" "(P, v) \<in> ?G" "u \<noteq> v" "(u, v) \<in> ?G\<^sup>*"
      then have "(u, v) \<in> ?G\<^sup>+" by (simp add: rtrancl_eq_or_trancl)
      then obtain w where w: "(u, w) \<in> ?G\<^sup>*" "(w, v) \<in> ?G"
        by (meson tranclE trancl_into_rtrancl rtrancl.rtrancl_refl)
      with up h(2) have "w = P" by blast
      with w h(1) have "(P, P) \<in> ?G\<^sup>+" by (meson rtrancl_into_trancl2)
      with acyc show False by blast
    qed
    from ancestors_chain[OF up x] show False
      using sym[OF e(1) e(2) c(3)] sym[OF e(2) e(1)] c(3) by blast
  qed
  have i5: "\<forall>s \<in> set (rev ?C @ stack). \<forall>t \<in> set (rev ?C @ stack). s \<noteq> t \<longrightarrow>
              ?G\<^sup>* `` {s} \<inter> ?G\<^sup>* `` {t} = {}"
  proof (intro ballI impI)
    fix s t assume st: "s \<in> set (rev ?C @ stack)" "t \<in> set (rev ?C @ stack)" "s \<noteq> t"
    have old: "\<And>s t. s \<in> set stack \<Longrightarrow> t \<in> set stack \<Longrightarrow> s \<noteq> t \<Longrightarrow>
                 ?G\<^sup>* `` {s} \<inter> ?G\<^sup>* `` {t} = {}"
      using "2.prems"(5) by simp
    consider (cc) "s \<in> set ?C" "t \<in> set ?C" | (cs) "s \<in> set ?C" "t \<in> set stack"
      | (sc) "s \<in> set stack" "t \<in> set ?C" | (ss) "s \<in> set stack" "t \<in> set stack"
      using st by auto
    then show "?G\<^sup>* `` {s} \<inter> ?G\<^sup>* `` {t} = {}"
    proof cases
      case cc
      then show ?thesis using kids[OF _ _ st(3)] by blast
    next
      case cs
      then show ?thesis using sub[OF cs(1)] dP[OF cs(2)] by blast
    next
      case sc
      then show ?thesis using sub[OF sc(2)] dP[OF sc(1)] by blast
    next
      case ss
      then show ?thesis using old st(3) by blast
    qed
  qed
  have img: "?G\<^sup>* `` set (rev ?C @ stack) = ?G\<^sup>* `` (?G `` {P}) \<union> ?G\<^sup>* `` set stack"
    using C by auto
  have unf: "?G\<^sup>* `` {P} = insert P (?G\<^sup>* `` (?G `` {P}))"
    by (rule rtrancl_image_unfold)
  have old6: "visited \<inter> (?G\<^sup>* `` {P} \<union> ?G\<^sup>* `` set stack) = {}"
    using "2.prems"(6) by auto
  have old7: "visited \<union> (?G\<^sup>* `` {P} \<union> ?G\<^sup>* `` set stack) = {..<length adj}"
    using "2.prems"(7) by auto
  have PnCs: "P \<notin> ?G\<^sup>* `` (?G `` {P})"
    using PnC C by auto
  have Pnst: "P \<notin> ?G\<^sup>* `` set stack"
  proof
    assume "P \<in> ?G\<^sup>* `` set stack"
    then obtain t where t: "t \<in> set stack" "P \<in> ?G\<^sup>* `` {t}" by auto
    have "P \<in> ?G\<^sup>* `` {P}" by simp
    with dP[OF t(1)] t(2) show False by blast
  qed
  have i6: "insert P visited \<inter> ?G\<^sup>* `` set (rev ?C @ stack) = {}"
    unfolding img using old6 PnCs Pnst unf by blast
  have i7: "insert P visited \<union> ?G\<^sup>* `` set (rev ?C @ stack) = {..<length adj}"
    unfolding img using old7 unf by blast
  have step: "ensure_valid_tree_loop adj (P # stack) visited
                = ensure_valid_tree_loop adj (rev ?C @ stack) (insert P visited)"
    using Pnv Plt by simp
  have nl: "\<not> length adj \<le> P" using Plt by simp
  show ?case unfolding step
    by (rule "2.IH"[OF Pnv nl up acyc i3 i4 i5 i6 i7])
qed

lemma row_graph_fill_diagonal:
  assumes "is_square01 a"
  shows "row_graph (fill_diagonal a 0) = edges a"
proof -
  have "\<And>P c. P < length a \<Longrightarrow> (c \<in> set (flatnonzero (fill_diagonal a 0 ! P))) = ((P, c) \<in> edges a)"
    using children_fill_diagonal[OF assms] by blast
  then show ?thesis
    by (auto simp: row_graph_def length_fill_diagonal dest: edges_bound)
qed

lemma ncols_square:
  assumes "is_square01 a" and "0 < length a"
  shows "ncols a = length a"
proof -
  obtain r rs where a: "a = r # rs" using assms(2) by (cases a) auto
  then have "r \<in> set a" by simp
  with assms(1) have "length r = length a" unfolding is_square01_def by blast
  then show ?thesis by (simp add: ncols_def a)
qed

lemma np_diag_ones:
  assumes "is_square01 a" and "0 < length a"
  shows "(np_diag a = replicate (length a) 1) = (\<forall>i < length a. a ! i ! i = 1)"
proof -
  have nc: "ncols a = length a" using assms by (rule ncols_square)
  have l: "length (np_diag a) = length a" by (simp add: np_diag_def nc)
  have n: "\<And>i. i < length a \<Longrightarrow> np_diag a ! i = a ! i ! i"
    by (simp add: np_diag_def nc)
  show ?thesis
  proof
    assume e: "np_diag a = replicate (length a) 1"
    show "\<forall>i < length a. a ! i ! i = 1"
    proof (intro allI impI)
      fix i assume i: "i < length a"
      have "a ! i ! i = np_diag a ! i" using n[OF i] by simp
      also have "\<dots> = 1" unfolding e using i by simp
      finally show "a ! i ! i = 1" .
    qed
  next
    assume d: "\<forall>i < length a. a ! i ! i = 1"
    show "np_diag a = replicate (length a) 1"
      by (rule nth_equalityI) (use l n d in simp_all)
  qed
qed

lemma is_tree_ensure_valid:
  assumes "is_tree a"
  shows "ensure_valid_tree a = Inr ()"
proof -
  let ?m = "fill_diagonal a 0"
  have sq: "is_square01 a" and K: "0 < length a" and d: "\<forall>i < length a. a ! i ! i = 1"
    and up: "\<forall>i i' j. (i, j) \<in> edges a \<longrightarrow> (i', j) \<in> edges a \<longrightarrow> i = i'"
    and reach: "\<forall>j < length a. (0, j) \<in> (edges a)\<^sup>*"
    using assms by (auto simp: is_tree_def)
  have G: "row_graph ?m = edges a" using sq by (rule row_graph_fill_diagonal)
  have len: "length ?m = length a" by (rule length_fill_diagonal)
  have acyc: "\<forall>x. (x, x) \<notin> (edges a)\<^sup>+" using is_tree_acyclic[OF assms] by blast
  have all: "(edges a)\<^sup>* `` {0} = {..<length a}"
    using reach K by (auto dest: edges_rtrancl_bound)
  have "ensure_valid_tree_loop ?m [0] {} = Inr {..<length ?m}"
    by (rule ensure_loop_complete) (use up acyc all K in \<open>simp_all add: G len\<close>)
  moreover have "\<forall>x \<in> set (np_diag a). x = 1"
    using np_diag_ones[OF sq K] d by simp
  moreover have "{..<length a} = set [0..<length a]" by auto
  ultimately show ?thesis by (simp add: ensure_valid_tree_def len)
qed

lemma ensure_valid_reachable:
  assumes "is_square01 a" and "ensure_valid_tree a = Inr ()"
  shows "0 < length a \<and> (\<forall>j < length a. (0, j) \<in> (edges a)\<^sup>*)"
proof -
  let ?m = "fill_diagonal a 0"
  from assms(2) obtain V where
    V: "ensure_valid_tree_loop ?m [0] {} = Inr V" and Vall: "V = set [0..<length a]"
    by (auto simp: ensure_valid_tree_def Let_def split: if_splits sum.splits)
  have K: "0 < length a"
  proof (rule ccontr)
    assume "\<not> 0 < length a"
    then have "length ?m \<le> 0" by (simp add: length_fill_diagonal)
    then have "ensure_valid_tree_loop ?m [0] {} = Inl IndexError" by simp
    with V show False by simp
  qed
  let ?S = "(edges a)\<^sup>* `` {0}"
  have cl: "\<forall>P < length ?m. P \<in> ?S \<longrightarrow> set (flatnonzero (?m ! P)) \<subseteq> ?S"
  proof (intro allI impI)
    fix P assume "P < length ?m" "P \<in> ?S"
    then have "P < length a" by (simp add: length_fill_diagonal)
    from children_fill_diagonal[OF assms(1) this] \<open>P \<in> ?S\<close>
    show "set (flatnonzero (?m ! P)) \<subseteq> ?S" by (auto intro: rtrancl_into_rtrancl)
  qed
  have "V \<subseteq> ?S" by (rule ensure_loop_sound[OF V cl]) simp_all
  with Vall K show ?thesis by auto
qed

subsection \<open>Column sums count parents\<close>

lemma sum_list_01:
  assumes "\<forall>x \<in> set xs. f x = (0::int) \<or> f x = 1"
  shows "sum_list (map f xs) = int (length (filter (\<lambda>x. f x = 1) xs))"
  using assms by (induction xs) auto

lemma column_nth: "column a j = map (\<lambda>i. a ! i ! j) [0..<length a]"
  by (rule nth_equalityI) (simp_all add: column_def)

lemma column_sum_card:
  assumes "is_square01 a" and "j < length a"
  shows "sum_list (column a j) = int (card {i. i < length a \<and> a ! i ! j = 1})"
proof -
  have "\<forall>i \<in> set [0..<length a]. a ! i ! j = 0 \<or> a ! i ! j = 1"
    using is_square01_entry[OF assms(1) _ assms(2)] by simp
  from sum_list_01[of "[0..<length a]" "\<lambda>i. a ! i ! j", OF this]
  have "sum_list (column a j) = int (length (filter (\<lambda>i. a ! i ! j = 1) [0..<length a]))"
    by (simp add: column_nth)
  also have "length (filter (\<lambda>i. a ! i ! j = 1) [0..<length a])
               = card (set (filter (\<lambda>i. a ! i ! j = 1) [0..<length a]))"
    by (rule distinct_card[symmetric]) simp
  also have "set (filter (\<lambda>i. a ! i ! j = 1) [0..<length a]) = {i. i < length a \<and> a ! i ! j = 1}"
    by auto
  finally show ?thesis .
qed

lemma column_sum_parents:
  assumes "is_square01 a" and "j < length a" and "a ! j ! j = 1"
  shows "sum_list (column a j) = 1 + int (card {i. (i, j) \<in> edges a})"
proof -
  have e: "{i. i < length a \<and> a ! i ! j = 1} = insert j {i. (i, j) \<in> edges a}"
    using assms(2,3) by (auto simp: edges_def)
  have f: "finite {i. (i, j) \<in> edges a}"
    by (rule finite_subset[of _ "{..<length a}"]) (auto dest: edges_bound)
  have n: "j \<notin> {i. (i, j) \<in> edges a}" by (auto dest: edges_bound)
  show ?thesis
    unfolding column_sum_card[OF assms(1,2)] e using f n by simp
qed

lemma sum_axis0_nth:
  assumes "is_square01 a" and "j < length a"
  shows "length (sum_axis0 a) = length a" and "sum_axis0 a ! j = sum_list (column a j)"
proof -
  have nc: "ncols a = length a" using assms by (intro ncols_square) auto
  show "length (sum_axis0 a) = length a" by (simp add: sum_axis0_def nc)
  show "sum_axis0 a ! j = sum_list (column a j)" using assms(2) by (simp add: sum_axis0_def nc)
qed

lemma card_le_one_unique:
  assumes "finite S" and "card S \<le> 1" and "x \<in> S" and "y \<in> S"
  shows "x = y"
  using assms by (metis card_le_Suc0_iff_eq One_nat_def)

lemma card_unique_le_one:
  assumes "\<forall>x \<in> S. \<forall>y \<in> S. x = y"
  shows "finite S \<and> card S \<le> 1"
proof (cases "S = {}")
  case True
  then show ?thesis by simp
next
  case False
  then obtain x where "x \<in> S" by blast
  with assms have "S = {x}" by blast
  then show ?thesis by simp
qed

lemma is_tree_column_sums:
  assumes "is_tree a"
  shows "sum_axis0 a = 1 # replicate (length a - 1) 2"
proof (rule nth_equalityI)
  have sq: "is_square01 a" and K: "0 < length a" and d: "\<forall>i < length a. a ! i ! i = 1"
    and root: "\<forall>i. (i, 0) \<notin> edges a"
    and up: "\<forall>i i' j. (i, j) \<in> edges a \<longrightarrow> (i', j) \<in> edges a \<longrightarrow> i = i'"
    and reach: "\<forall>j < length a. (0, j) \<in> (edges a)\<^sup>*"
    using assms by (auto simp: is_tree_def)
  show "length (sum_axis0 a) = length (1 # replicate (length a - 1) 2)"
    using sum_axis0_nth(1)[OF sq K] K by simp
  fix j assume "j < length (sum_axis0 a)"
  then have j: "j < length a" using sum_axis0_nth(1)[OF sq K] by simp
  have s: "sum_axis0 a ! j = 1 + int (card {i. (i, j) \<in> edges a})"
    using sum_axis0_nth(2)[OF sq j] column_sum_parents[OF sq j] d j by simp
  show "sum_axis0 a ! j = (1 # replicate (length a - 1) 2) ! j"
  proof (cases "j = 0")
    case True
    with root have "{i. (i, j) \<in> edges a} = {}" by simp
    with s True show ?thesis by simp
  next
    case False
    from reach j have "(0, j) \<in> (edges a)\<^sup>*" by simp
    with False obtain p where p: "(p, j) \<in> edges a" by (metis rtranclE)
    with up have "{i. (i, j) \<in> edges a} = {p}" by blast
    with s False j show ?thesis by (simp add: nth_Cons')
  qed
qed

lemma is_tree_adjacency_invariants:
  assumes "is_tree a"
  shows "adjacency_invariants a"
proof -
  have sq: "is_square01 a" and K: "0 < length a" and d: "\<forall>i < length a. a ! i ! i = 1"
    using assms by (auto simp: is_tree_def)
  have "sorted (1 # replicate (length a - 1) (2::int))"
    by (simp add: sorted_replicate)
  then have "sort (sum_axis0 a) = 1 # replicate (length a - 1) 2"
    unfolding is_tree_column_sums[OF assms] by (rule sorted_sort_id)
  with sq np_diag_ones[OF sq K] d is_tree_ensure_valid[OF assms]
  show ?thesis by (simp add: adjacency_invariants_def)
qed

lemma adjacency_invariants_is_tree:
  assumes "adjacency_invariants a"
  shows "is_tree a"
proof -
  have sq: "is_square01 a" and dg: "np_diag a = replicate (length a) 1"
    and cs: "sort (sum_axis0 a) = 1 # replicate (length a - 1) 2"
    and ev: "ensure_valid_tree a = Inr ()"
    using assms by (auto simp: adjacency_invariants_def)
  from ensure_valid_reachable[OF sq ev]
  have K: "0 < length a" and reach: "\<forall>j < length a. (0, j) \<in> (edges a)\<^sup>*" by blast+
  have d: "\<forall>i < length a. a ! i ! i = 1" using np_diag_ones[OF sq K] dg by simp
  have setcs: "set (sum_axis0 a) = set (1 # replicate (length a - 1) 2)"
    using cs by (metis set_sort)
  have len: "length (sum_axis0 a) = length a" using sum_axis0_nth(1)[OF sq K] .
  have par: "\<And>j. j < length a \<Longrightarrow> sum_axis0 a ! j = 1 + int (card {i. (i, j) \<in> edges a})"
    using sum_axis0_nth(2)[OF sq] column_sum_parents[OF sq] d by simp
  have fin: "\<And>j. finite {i. (i, j) \<in> edges a}"
    by (rule finite_subset[of _ "{..<length a}"]) (auto dest: edges_bound)
  have le1: "\<And>j. j < length a \<Longrightarrow> card {i. (i, j) \<in> edges a} \<le> 1"
  proof -
    fix j assume j: "j < length a"
    then have "sum_axis0 a ! j \<in> set (sum_axis0 a)" using len by simp
    with setcs have "sum_axis0 a ! j = 1 \<or> sum_axis0 a ! j = 2" by (auto split: if_splits)
    with par[OF j] show "card {i. (i, j) \<in> edges a} \<le> 1" by linarith
  qed
  have up: "\<forall>i i' j. (i, j) \<in> edges a \<longrightarrow> (i', j) \<in> edges a \<longrightarrow> i = i'"
  proof (intro allI impI)
    fix i i' j assume e: "(i, j) \<in> edges a" "(i', j) \<in> edges a"
    then have "j < length a" by (auto dest: edges_bound)
    from card_le_one_unique[OF fin le1[OF this]] e show "i = i'" by blast
  qed
  have two: "\<And>j. j < length a \<Longrightarrow> j \<noteq> 0 \<Longrightarrow> sum_axis0 a ! j = 2"
  proof -
    fix j assume j: "j < length a" "j \<noteq> 0"
    with reach have "(0, j) \<in> (edges a)\<^sup>*" by simp
    with j(2) obtain p where "(p, j) \<in> edges a" by (metis rtranclE)
    then have "{i. (i, j) \<in> edges a} \<noteq> {}" by blast
    then have "0 < card {i. (i, j) \<in> edges a}" using fin by (simp add: card_gt_0_iff)
    with le1[OF j(1)] par[OF j(1)] show "sum_axis0 a ! j = 2" by linarith
  qed
  have "1 \<in> set (sum_axis0 a)" using setcs by simp
  then obtain j where j: "j < length a" "sum_axis0 a ! j = 1"
    using len by (metis in_set_conv_nth)
  with two have "j = 0" by force
  with j par[OF j(1)] have "card {i. (i, 0) \<in> edges a} = 0" by simp
  with fin have "{i. (i, 0) \<in> edges a} = {}" by simp
  then have root: "\<forall>i. (i, 0) \<notin> edges a" by blast
  show ?thesis
    unfolding is_tree_def using K sq d root up reach by blast
qed

lemma adjacency_invariants_iff: "adjacency_invariants a = is_tree a"
  using adjacency_invariants_is_tree is_tree_adjacency_invariants by blast

subsection \<open>The recursion of \<open>_find_desc\<close>\<close>

lemma desc_row_nth:
  "j < length a \<Longrightarrow> desc_row a c ! j = (if (c, j) \<in> (edges a)\<^sup>* then 1 else 0)"
  by (simp add: desc_row_def)

lemma length_desc_row: "length (desc_row a c) = length a"
  by (simp add: desc_row_def)

lemma sum_list_indicator:
  "sum_list (map (\<lambda>c. if P c then (1::int) else 0) xs) = int (length (filter P xs))"
  by (induction xs) auto

lemma mem_filterD: "x \<in> set (filter P xs) \<Longrightarrow> x \<in> set xs \<and> P x"
  by simp

lemma mem_filterI: "x \<in> set xs \<Longrightarrow> P x \<Longrightarrow> x \<in> set (filter P xs)"
  by simp

lemma sequence_map_Inr:
  assumes "\<forall>x \<in> set xs. f x = Inr (g x)"
  shows "sequence (map f xs) = Inr (map g xs)"
  using assms by (induction xs) auto

lemma sum_list_pos_member:
  assumes "\<forall>x \<in> set xs. (0::int) \<le> x" and "y \<in> set xs" and "0 < y"
  shows "0 < sum_list xs"
  using assms
proof (induction xs)
  case Nil
  then show ?case by simp
next
  case (Cons x xs)
  have "0 \<le> sum_list xs" using Cons.prems(1) by (simp add: sum_list_nonneg)
  moreover have "0 \<le> x" using Cons.prems(1) by simp
  ultimately show ?case using Cons by (cases "y = x") auto
qed

lemma sum_axis0_rows:
  assumes "rows \<noteq> []" and "\<forall>r \<in> set rows. length r = K"
  shows "sum_axis0 rows = map (\<lambda>j. sum_list (map (\<lambda>r. r ! j) rows)) [0..<K]"
proof -
  obtain r rs where "rows = r # rs" using assms(1) by (cases rows) auto
  with assms(2) have "ncols rows = K" by (simp add: ncols_def)
  then show ?thesis by (simp add: sum_axis0_def column_def)
qed

lemma desc_strict_subset:
  assumes acyc: "\<forall>x. (x, x) \<notin> (edges a)\<^sup>+" and "(I, c) \<in> edges a"
  shows "(edges a)\<^sup>* `` {c} \<subset> (edges a)\<^sup>* `` {I}"
proof -
  have "(edges a)\<^sup>* `` {c} \<subseteq> (edges a)\<^sup>* `` {I}"
    using assms(2) by (auto intro: converse_rtrancl_into_rtrancl)
  moreover have "I \<in> (edges a)\<^sup>* `` {I}" by simp
  moreover have "I \<notin> (edges a)\<^sup>* `` {c}"
  proof
    assume "I \<in> (edges a)\<^sup>* `` {c}"
    then have "(c, I) \<in> (edges a)\<^sup>*" by simp
    with assms(2) have "(I, I) \<in> (edges a)\<^sup>+" by (rule rtrancl_into_trancl2)
    with acyc show False by blast
  qed
  ultimately show ?thesis by blast
qed

lemma finite_desc: "I < length a \<Longrightarrow> finite ((edges a)\<^sup>* `` {I})"
  by (rule finite_subset[of _ "{..<length a}"]) (auto dest: edges_rtrancl_bound)

lemma find_desc_correct:
  assumes sq: "is_square01 a" and d: "\<forall>i < length a. a ! i ! i = 1"
    and acyc: "\<forall>x. (x, x) \<notin> (edges a)\<^sup>+"
    and "I < length a" and "card ((edges a)\<^sup>* `` {I}) \<le> limit"
  shows "find_desc a limit I (a ! I) = Inr (desc_row a I)"
  using assms(4,5)
proof (induction limit arbitrary: I)
  case 0
  have "I \<in> (edges a)\<^sup>* `` {I}" by simp
  then have "(edges a)\<^sup>* `` {I} \<noteq> {}" by blast
  with finite_desc[OF "0.prems"(1)] "0.prems"(2) show ?case by simp
next
  case (Suc limit)
  let ?K = "length a"
  let ?E = "edges a"
  let ?vec = "a ! I"
  note I = Suc.prems(1)
  have lv: "length ?vec = ?K" using sq I by (rule is_square01_row)
  have e01: "\<And>j. j < ?K \<Longrightarrow> ?vec ! j = 0 \<or> ?vec ! j = 1"
    using is_square01_entry[OF sq I] .
  have nonneg: "\<forall>x \<in> set ?vec. 0 \<le> x"
    using sq I unfolding is_square01_def by (metis nth_mem zero_le_one order_refl)
  have "?vec ! I \<in> set ?vec" using I lv by simp
  with d I have "1 \<in> set ?vec" by simp
  from sum_list_pos_member[OF nonneg this] have nz: "sum_list ?vec \<noteq> 0" by simp
  let ?idxs = "[idx \<leftarrow> [0..<length ?vec]. idx \<noteq> I \<and> ?vec ! idx = 1]"
  have idxs: "set ?idxs = {c. (I, c) \<in> ?E}"
    using I lv by (auto simp: edges_def)
  let ?f = "\<lambda>idx. if idx < length a then find_desc a limit idx (a ! idx) else Inl IndexError"
  have rec: "\<forall>idx \<in> set ?idxs. ?f idx = Inr (desc_row a idx)"
  proof
    fix c assume "c \<in> set ?idxs"
    with idxs have e: "(I, c) \<in> ?E" by simp
    then have c: "c < ?K" by (auto dest: edges_bound)
    have "card (?E\<^sup>* `` {c}) < card (?E\<^sup>* `` {I})"
      by (rule psubset_card_mono[OF finite_desc[OF I] desc_strict_subset[OF acyc e]])
    with Suc.prems(2) have "card (?E\<^sup>* `` {c}) \<le> limit" by simp
    from Suc.IH[OF c this] c show "?f c = Inr (desc_row a c)" by simp
  qed
  have seq: "sequence (map ?f ?idxs) = Inr (map (desc_row a) ?idxs)"
    by (rule sequence_map_Inr[OF rec])
  let ?children = "map (desc_row a) ?idxs"
  let ?ind = "\<lambda>c j. if (c, j) \<in> ?E\<^sup>* then (1::int) else 0"
  let ?cs = "map (\<lambda>j. sum_list (map (\<lambda>c. ?ind c j) ?idxs)) [0..<?K]"
  have child_sum: "(if ?children = [] then replicate (length ?vec) 0 else sum_axis0 ?children) = ?cs"
  proof (cases "?children = []")
    case True
    then have "?idxs = []" by simp
    then have "?cs = map (\<lambda>j. 0) [0..<?K]" by simp
    also have "\<dots> = replicate ?K 0" by (simp add: map_replicate_const)
    finally show ?thesis using True lv by simp
  next
    case False
    have "\<forall>r \<in> set ?children. length r = ?K" by (auto simp: length_desc_row)
    from sum_axis0_rows[OF False this]
    have "sum_axis0 ?children = map (\<lambda>j. sum_list (map (\<lambda>r. r ! j) ?children)) [0..<?K]" .
    also have "\<dots> = ?cs"
    proof (rule map_cong[OF refl])
      fix j assume "j \<in> set [0..<?K]"
      then have j: "j < ?K" by simp
      have "map (\<lambda>r. r ! j) ?children = map (\<lambda>c. ?ind c j) ?idxs"
        by (simp only: map_map o_def desc_row_nth[OF j])
      then show "sum_list (map (\<lambda>r. r ! j) ?children) = sum_list (map (\<lambda>c. ?ind c j) ?idxs)"
        by (rule arg_cong)
    qed
    finally show ?thesis using False by simp
  qed
  have fd: "find_desc a (Suc limit) I ?vec
              = Inr (map (\<lambda>x. if 1 < x then 1 else x) (map2 (+) ?vec ?cs))"
    using nz seq child_sum by (simp add: Let_def del: upt.simps)
  have "map (\<lambda>x. if 1 < x then 1 else x) (map2 (+) ?vec ?cs) = desc_row a I"
  proof (rule nth_equalityI)
    show "length (map (\<lambda>x. if 1 < x then 1 else x) (map2 (+) ?vec ?cs)) = length (desc_row a I)"
      using lv by (simp add: length_desc_row)
    fix j assume "j < length (map (\<lambda>x. if 1 < x then 1 else x) (map2 (+) ?vec ?cs))"
    then have j: "j < ?K" using lv by simp
    let ?s = "sum_list (map (\<lambda>c. ?ind c j) ?idxs)"
    define n where "n = length (filter (\<lambda>c. (c, j) \<in> ?E\<^sup>*) ?idxs)"
    have s: "?s = int n"
      unfolding n_def by (rule sum_list_indicator)
    have v01: "?vec ! j = 0 \<or> ?vec ! j = 1" by (rule e01[OF j])
    have lhs: "map (\<lambda>x. if 1 < x then 1 else x) (map2 (+) ?vec ?cs) ! j
                 = (if 1 < ?vec ! j + ?s then 1 else ?vec ! j + ?s)"
      using j lv by simp
    have rhs: "desc_row a I ! j = ?ind I j" using j by (rule desc_row_nth)
    show "map (\<lambda>x. if 1 < x then 1 else x) (map2 (+) ?vec ?cs) ! j = desc_row a I ! j"
    proof (cases "(I, j) \<in> ?E\<^sup>*")
      case True
      have "1 \<le> ?vec ! j + ?s"
      proof (cases "I = j")
        case True
        with d I have "?vec ! j = 1" by simp
        with s show ?thesis by simp
      next
        case False
        with True obtain c where c: "(I, c) \<in> ?E" "(c, j) \<in> ?E\<^sup>*"
          by (metis converse_rtranclE)
        then have "c \<in> set ?idxs" using idxs by blast
        then have "c \<in> set (filter (\<lambda>c. (c, j) \<in> ?E\<^sup>*) ?idxs)"
          using c(2) by (rule mem_filterI)
        then have "0 < n"
          unfolding n_def by (metis length_greater_0_conv empty_iff list.set(1))
        with s v01 show ?thesis by linarith
      qed
      with True lhs rhs show ?thesis by simp
    next
      case False
      then have nj: "I \<noteq> j" by auto
      have "(I, j) \<notin> ?E" using False by auto
      with nj I j v01 have v0: "?vec ! j = 0" by (auto simp: edges_def)
      have "filter (\<lambda>c. (c, j) \<in> ?E\<^sup>*) ?idxs = []"
      proof (rule ccontr)
        assume "filter (\<lambda>c. (c, j) \<in> ?E\<^sup>*) ?idxs \<noteq> []"
        then obtain c where "c \<in> set (filter (\<lambda>c. (c, j) \<in> ?E\<^sup>*) ?idxs)"
          by (meson last_in_set)
        then have "c \<in> set ?idxs \<and> (c, j) \<in> ?E\<^sup>*"
          by (rule mem_filterD)
        then have "(I, c) \<in> ?E" "(c, j) \<in> ?E\<^sup>*" using idxs by blast+
        then have "(I, j) \<in> ?E\<^sup>*" by (rule converse_rtrancl_into_rtrancl)
        with False show False by simp
      qed
      then have "n = 0" by (simp only: n_def list.size)
      with s have "?s = 0" by simp
      with v0 False lhs rhs show ?thesis by simp
    qed
  qed
  with fd show ?case by simp
qed

lemma card_desc_le:
  assumes "I < length a"
  shows "card ((edges a)\<^sup>* `` {I}) \<le> length a"
proof -
  have "(edges a)\<^sup>* `` {I} \<subseteq> {..<length a}"
    using assms by (auto dest: edges_rtrancl_bound)
  then have "card ((edges a)\<^sup>* `` {I}) \<le> card {..<length a}"
    by (intro card_mono) auto
  then show ?thesis by simp
qed

lemma make_ancestral_acyclic:
  assumes sq: "is_square01 a" and d: "\<forall>i < length a. a ! i ! i = 1"
    and acyc: "\<forall>x. (x, x) \<notin> (edges a)\<^sup>+"
    and "length a \<le> limit"
  shows "make_ancestral_from_adj limit a = Inr (closure_matrix a)"
proof -
  let ?f = "\<lambda>k. case find_desc a limit k (a ! k) of
                   Inl e \<Rightarrow> Inl e
                 | Inr row \<Rightarrow> if length row = length a then Inr row else Inl ValueError"
  have "\<forall>k \<in> set [0..<length a]. ?f k = Inr (desc_row a k)"
  proof
    fix k assume "k \<in> set [0..<length a]"
    then have k: "k < length a" by simp
    have "card ((edges a)\<^sup>* `` {k}) \<le> limit"
      using card_desc_le[OF k] assms(4) by simp
    from find_desc_correct[OF sq d acyc k this]
    show "?f k = Inr (desc_row a k)" by (simp add: length_desc_row)
  qed
  from sequence_map_Inr[OF this]
  show ?thesis by (simp add: make_ancestral_from_adj_def closure_matrix_def)
qed

lemma closure_matrix_ancestry: "is_ancestry_of a (closure_matrix a)"
  by (auto simp: is_ancestry_of_def closure_matrix_def desc_row_nth length_desc_row
      rtrancl_eq_or_trancl)

lemma make_ancestral_tree:
  assumes "is_tree a" and "length a \<le> limit"
  shows "make_ancestral_from_adj limit a = Inr (closure_matrix a)"
proof -
  have "\<forall>x. (x, x) \<notin> (edges a)\<^sup>+" using is_tree_acyclic[OF assms(1)] by blast
  with assms show ?thesis
    by (intro make_ancestral_acyclic) (auto simp: is_tree_def)
qed

text \<open>
  Claim C3. For a matrix with the adjacency invariants, whatever the order of its nodes,
  \<open>make_ancestral_from_adj\<close> returns (with a recursion depth of at least the number of
  nodes available) the matrix whose entry \<open>[i][j]\<close> is 1 when \<open>i = j\<close> or a path leads
  from \<open>i\<close> to \<open>j\<close> in the graph without the diagonal, and 0 otherwise.
\<close>

theorem make_ancestral_from_adj_closure:
  assumes "adjacency_invariants a" and "length a \<le> limit"
  shows "\<exists>z. make_ancestral_from_adj limit a = Inr z
           \<and> length z = length a
           \<and> (\<forall>i < length a. length (z ! i) = length a
                 \<and> (\<forall>j < length a.
                       z ! i ! j = (if i = j \<or> (i, j) \<in> (edges a)\<^sup>+ then 1 else 0)))"
proof -
  have t: "is_tree a" using assms(1) by (rule adjacency_invariants_is_tree)
  have "is_ancestry_of a (closure_matrix a)" by (rule closure_matrix_ancestry)
  with make_ancestral_tree[OF t assms(2)] show ?thesis
    unfolding is_ancestry_of_def by blast
qed

lemma edges_example: "edges [[1, 0, 1], [0, 1, 0], [0, 1, 1]] = {(0, 2), (2, 1)}"
  by (auto simp: edges_def nth_Cons' split: if_splits)

theorem make_ancestral_from_adj_closure_witness:
  "adjacency_invariants [[1, 0, 1], [0, 1, 0], [0, 1, 1]]
   \<and> make_ancestral_from_adj 3 [[1, 0, 1], [0, 1, 0], [0, 1, 1]]
       = Inr [[1, 1, 1], [0, 1, 0], [0, 1, 1]]
   \<and> (\<exists>z. make_ancestral_from_adj 3 [[1, 0, 1], [0, 1, 0], [0, 1, 1]] = Inr z
        \<and> z ! 0 ! 1 = (if (0::nat) = 1 \<or> (0, 1) \<in> (edges [[1, 0, 1], [0, 1, 0], [0, 1, 1]])\<^sup>+
                        then 1 else 0))"
proof -
  let ?a = "[[1, 0, 1], [0, 1, 0], [0, 1, 1]] :: matrix"
  have inv: "adjacency_invariants ?a" by code_simp
  have ev: "make_ancestral_from_adj 3 ?a = Inr [[1, 1, 1], [0, 1, 0], [0, 1, 1]]" by code_simp
  have l: "length ?a \<le> 3" by simp
  from make_ancestral_from_adj_closure[OF inv l]
  obtain z where z: "make_ancestral_from_adj 3 ?a = Inr z"
    and e: "\<forall>i < length ?a. length (z ! i) = length ?a
                 \<and> (\<forall>j < length ?a.
                       z ! i ! j = (if i = j \<or> (i, j) \<in> (edges ?a)\<^sup>+ then 1 else 0))"
    by blast
  from e have "z ! 0 ! 1 = (if (0::nat) = 1 \<or> (0, 1) \<in> (edges ?a)\<^sup>+ then 1 else 0)"
    by simp
  with inv ev z show ?thesis by blast
qed

section \<open>The tree mutator keeps the adjacency invariants\<close>

lemma deref_update_at_same [simp]: "deref (update_at h r f) r = f (deref h r)"
  by (simp add: deref_def update_at_def)

lemma deref_update_at_other [simp]: "r' \<noteq> r \<Longrightarrow> deref (update_at h r f) r' = deref h r'"
  by (simp add: deref_def update_at_def)

lemma cells_update_at: "cells (update_at h r f) = (cells h)(r \<mapsto> f (deref h r))"
  by (simp add: update_at_def)

lemma fresh_update_at [simp]: "fresh (update_at h r f) = fresh h"
  by (simp add: update_at_def)

lemma modify_tree_store_result:
  assumes "cells h adj_ref = Some a" and "cells h anc_ref = Some z"
    and "adj_ref < fresh h" and "anc_ref < fresh h"
  shows "modify_tree_store h adj_ref anc_ref A B =
           (case modify_tree_result a z A B of
              Inl e \<Rightarrow> Inl e
            | Inr r \<Rightarrow>
                Inr (fresh h,
                     h\<lparr>cells := (cells h)(fresh h \<mapsto> r, Suc (fresh h) \<mapsto> fill_diagonal z 0),
                       fresh := Suc (Suc (fresh h))\<rparr>))"
proof -
  have d1: "deref h adj_ref = a" and d2: "deref h anc_ref = z"
    using assms by (simp_all add: deref_def)
  have n: "anc_ref \<noteq> fresh h" using assms by simp
  have tw: "\<And>x y. (cells h)(Suc (fresh h) \<mapsto> x, fresh h \<mapsto> y)
                    = (cells h)(fresh h \<mapsto> y, Suc (fresh h) \<mapsto> x)"
    by (rule fun_upd_twist) simp
  show ?thesis
    unfolding modify_tree_store_def modify_tree_result_def np_copy_def
    using d1 d2 n
    by (simp add: Let_def deref_def update_at_def tw)
qed

lemma sqK_of_square01: "is_square01 a \<Longrightarrow> sqK a (length a)"
  by (simp add: sqK_def is_square01_def)

lemma sqK_fill_diagonal: "sqK m K \<Longrightarrow> sqK (fill_diagonal m v) K"
  by (simp add: sqK_def fill_diagonal_def)

lemma sqK_fill_diagonal_nth:
  "sqK m K \<Longrightarrow> i < K \<Longrightarrow> j < K \<Longrightarrow>
     fill_diagonal m v ! i ! j = (if i = j then v else m ! i ! j)"
  by (auto simp: sqK_def fill_diagonal_def)

lemma sqK_set_entry: "sqK m K \<Longrightarrow> sqK (set_entry m p q v) K"
  by (cases "p < length m") (auto simp: sqK_def set_entry_def nth_list_update)

lemma sqK_set_entry_nth:
  "sqK m K \<Longrightarrow> p < K \<Longrightarrow> q < K \<Longrightarrow> i < K \<Longrightarrow> j < K \<Longrightarrow>
     set_entry m p q v ! i ! j = (if i = p \<and> j = q then v else m ! i ! j)"
  by (auto simp: sqK_def set_entry_def nth_list_update)

lemma sqK_set_row: "sqK m K \<Longrightarrow> length r = K \<Longrightarrow> sqK (set_row m p r) K"
  by (cases "p < length m") (auto simp: sqK_def set_row_def nth_list_update)

lemma sqK_set_row_nth:
  "sqK m K \<Longrightarrow> p < K \<Longrightarrow> i < K \<Longrightarrow>
     set_row m p r ! i = (if i = p then r else m ! i)"
  by (auto simp: sqK_def set_row_def nth_list_update)

lemma sqK_set_column: "sqK m K \<Longrightarrow> length c = K \<Longrightarrow> sqK (set_column m q c) K"
  by (auto simp: sqK_def set_column_def)

lemma sqK_set_column_nth:
  "sqK m K \<Longrightarrow> length c = K \<Longrightarrow> q < K \<Longrightarrow> i < K \<Longrightarrow> j < K \<Longrightarrow>
     set_column m q c ! i ! j = (if j = q then c ! i else m ! i ! j)"
  by (auto simp: sqK_def set_column_def nth_list_update)

lemma sqK_fill_column: "sqK m K \<Longrightarrow> sqK (fill_column m q v) K"
  by (auto simp: sqK_def fill_column_def)

lemma sqK_fill_column_nth:
  "sqK m K \<Longrightarrow> q < K \<Longrightarrow> i < K \<Longrightarrow> j < K \<Longrightarrow>
     fill_column m q v ! i ! j = (if j = q then v else m ! i ! j)"
  by (auto simp: sqK_def fill_column_def nth_list_update)

lemma sqK_column: "sqK m K \<Longrightarrow> length (column m q) = K"
  by (simp add: sqK_def column_def)

lemma sqK_column_nth: "sqK m K \<Longrightarrow> i < K \<Longrightarrow> column m q ! i = m ! i ! q"
  by (simp add: sqK_def column_def)

lemma sqK_eqI:
  assumes "sqK m K" and "sqK m' K" and "\<And>i j. i < K \<Longrightarrow> j < K \<Longrightarrow> m ! i ! j = m' ! i ! j"
  shows "m = m'"
proof (rule nth_equalityI)
  show "length m = length m'" using assms(1,2) by (simp add: sqK_def)
  fix i assume "i < length m"
  then have i: "i < K" using assms(1) by (simp add: sqK_def)
  show "m ! i = m' ! i"
  proof (rule nth_equalityI)
    show "length (m ! i) = length (m' ! i)" using assms(1,2) i by (simp add: sqK_def)
    fix j assume "j < length (m ! i)"
    then have "j < K" using assms(1) i by (simp add: sqK_def)
    then show "m ! i ! j = m' ! i ! j" using assms(3) i by simp
  qed
qed

lemma sqK_relabelled: "sqK (relabelled a A B) (length a)"
  by (simp add: sqK_def relabelled_def)

lemma relabelled_nth:
  "i < length a \<Longrightarrow> j < length a \<Longrightarrow>
     relabelled a A B ! i ! j = a ! swap_nodes A B i ! swap_nodes A B j"
  by (simp add: relabelled_def)

lemma sqK_reattached: "sqK (reattached a A B) (length a)"
  by (simp add: sqK_def reattached_def)

lemma reattached_nth:
  "i < length a \<Longrightarrow> j < length a \<Longrightarrow>
     reattached a A B ! i ! j
       = (if i = j then 1 else if j = B then (if i = A then 1 else 0) else a ! i ! j)"
  by (simp add: reattached_def)

text \<open>The move branch computes the reattached matrix.\<close>

lemma move_branch:
  assumes "sqK a K" and "A < K" and "B < K"
  shows "fill_diagonal (set_entry (fill_column (fill_diagonal a 0) B 0) A B 1) 1 = reattached a A B"
proof -
  have K: "K = length a" using assms(1) by (simp add: sqK_def)
  note s1 = sqK_fill_diagonal[OF assms(1), of 0]
  note s2 = sqK_fill_column[OF s1, of B 0]
  note s3 = sqK_set_entry[OF s2, of A B 1]
  note s4 = sqK_fill_diagonal[OF s3, of 1]
  show ?thesis
  proof (rule sqK_eqI[OF s4])
    show "sqK (reattached a A B) K" unfolding K by (rule sqK_reattached)
    fix i j assume ij: "i < K" "j < K"
    then have ij': "i < length a" "j < length a" using K by simp_all
    show "fill_diagonal (set_entry (fill_column (fill_diagonal a 0) B 0) A B 1) 1 ! i ! j
            = reattached a A B ! i ! j"
      unfolding reattached_nth[OF ij']
      using ij assms(2,3)
      by (simp add: sqK_fill_diagonal_nth[OF s3] sqK_set_entry_nth[OF s2]
          sqK_fill_column_nth[OF s1] sqK_fill_diagonal_nth[OF assms(1)])
  qed
qed

text \<open>The swap branch computes the relabelled matrix.\<close>

lemma swap_branch:
  assumes "sqK a K" and "A < K" and "B < K" and "A \<noteq> B"
    and "\<forall>i < K. a ! i ! i = 1" and "a ! A ! B = 0"
    and "\<forall>i < K. \<forall>j < K. a ! i ! j = 0 \<or> a ! i ! j = 1"
  shows "(let a1 = fill_diagonal a 0;
              a2 = (if a1 ! B ! A \<noteq> 0 then set_entry a1 B A 0 else a1);
              a3 = set_row (set_row a2 A (a2 ! B)) B (a2 ! A);
              a4 = set_column (set_column a3 A (column a2 B)) B (column a2 A);
              a5 = (if a1 ! B ! A \<noteq> 0 then set_entry a4 A B 1 else a4)
          in fill_diagonal a5 1) = relabelled a A B"
proof -
  have K: "K = length a" using assms(1) by (simp add: sqK_def)
  define a1 where "a1 = fill_diagonal a 0"
  define a2 where "a2 = (if a1 ! B ! A \<noteq> 0 then set_entry a1 B A 0 else a1)"
  define a3 where "a3 = set_row (set_row a2 A (a2 ! B)) B (a2 ! A)"
  define a4 where "a4 = set_column (set_column a3 A (column a2 B)) B (column a2 A)"
  define a5 where "a5 = (if a1 ! B ! A \<noteq> 0 then set_entry a4 A B 1 else a4)"
  have s1: "sqK a1 K" unfolding a1_def by (rule sqK_fill_diagonal[OF assms(1)])
  have n1: "\<And>i j. i < K \<Longrightarrow> j < K \<Longrightarrow> a1 ! i ! j = (if i = j then 0 else a ! i ! j)"
    unfolding a1_def by (rule sqK_fill_diagonal_nth[OF assms(1)])
  have s2: "sqK a2 K" unfolding a2_def using s1 by (simp add: sqK_set_entry)
  have n2: "\<And>i j. i < K \<Longrightarrow> j < K \<Longrightarrow>
              a2 ! i ! j = (if i = j \<or> (i = B \<and> j = A) then 0 else a ! i ! j)"
    unfolding a2_def using assms(2,3,4)
    by (auto simp: sqK_set_entry_nth[OF s1] n1)
  have rl: "\<And>i. i < K \<Longrightarrow> length (a2 ! i) = K" using s2 by (simp add: sqK_def)
  have s3a: "sqK (set_row a2 A (a2 ! B)) K" by (rule sqK_set_row[OF s2 rl[OF assms(3)]])
  have s3: "sqK a3 K" unfolding a3_def by (rule sqK_set_row[OF s3a rl[OF assms(2)]])
  have n3: "\<And>i. i < K \<Longrightarrow> a3 ! i = (if i = B then a2 ! A else if i = A then a2 ! B else a2 ! i)"
    unfolding a3_def using assms(2,3)
    by (simp add: sqK_set_row_nth[OF s3a] sqK_set_row_nth[OF s2])
  have cl: "\<And>q. length (column a2 q) = K" by (rule sqK_column[OF s2])
  have s4a: "sqK (set_column a3 A (column a2 B)) K" by (rule sqK_set_column[OF s3 cl])
  have s4: "sqK a4 K" unfolding a4_def by (rule sqK_set_column[OF s4a cl])
  have n4: "\<And>i j. i < K \<Longrightarrow> j < K \<Longrightarrow>
              a4 ! i ! j = (if j = B then a2 ! i ! A else if j = A then a2 ! i ! B else a3 ! i ! j)"
    unfolding a4_def using assms(2,3)
    by (simp add: sqK_set_column_nth[OF s4a cl] sqK_set_column_nth[OF s3 cl]
        sqK_column_nth[OF s2])
  have s5: "sqK a5 K" unfolding a5_def using s4 by (simp add: sqK_set_entry)
  have n5: "\<And>i j. i < K \<Longrightarrow> j < K \<Longrightarrow>
              a5 ! i ! j = (if a1 ! B ! A \<noteq> 0 \<and> i = A \<and> j = B then 1 else a4 ! i ! j)"
    unfolding a5_def using assms(2,3)
    by (simp add: sqK_set_entry_nth[OF s4])
  have s6: "sqK (fill_diagonal a5 1) K" by (rule sqK_fill_diagonal[OF s5])
  have ba: "a1 ! B ! A = a ! B ! A" using n1[OF assms(3,2)] assms(4) by simp
  have ba01: "a ! B ! A = 0 \<or> a ! B ! A = 1" using assms(7,2,3) by simp
  have "fill_diagonal a5 1 = relabelled a A B"
  proof (rule sqK_eqI[OF s6])
    show "sqK (relabelled a A B) K" unfolding K by (rule sqK_relabelled)
    fix i j assume ij: "i < K" "j < K"
    have "fill_diagonal a5 1 ! i ! j = (if i = j then 1 else a5 ! i ! j)"
      by (rule sqK_fill_diagonal_nth[OF s5 ij])
    also have "\<dots> = a ! swap_nodes A B i ! swap_nodes A B j"
      using ij assms(2-6) ba ba01
      by (auto simp: n5 n4 n3 n2 swap_nodes_def)
    finally show "fill_diagonal a5 1 ! i ! j = relabelled a A B ! i ! j"
      using ij K by (simp add: relabelled_nth)
  qed
  then show ?thesis
    unfolding a1_def a2_def a3_def a4_def a5_def Let_def .
qed

subsection \<open>Moving a subtree keeps the tree\<close>

lemma edges_reattached:
  assumes "is_square01 a" and "A < length a" and "B < length a" and "A \<noteq> B"
  shows "edges (reattached a A B) = {(i, j). (i, j) \<in> edges a \<and> j \<noteq> B} \<union> {(A, B)}"
  using assms
  by (auto simp: edges_def reattached_nth reattached_def split: if_splits)

lemma path_avoiding:
  assumes "(x, y) \<in> E\<^sup>*"
  shows "(x, y) \<in> {(i, j). (i, j) \<in> E \<and> j \<noteq> B}\<^sup>* \<or> (B, y) \<in> {(i, j). (i, j) \<in> E \<and> j \<noteq> B}\<^sup>*"
  using assms
proof (induction rule: rtrancl_induct)
  case base
  then show ?case by simp
next
  case (step y z)
  let ?F = "{(i, j). (i, j) \<in> E \<and> j \<noteq> B}"
  show ?case
  proof (cases "z = B")
    case True
    then show ?thesis by simp
  next
    case False
    with step.hyps(2) have "(y, z) \<in> ?F" by simp
    with step.IH show ?thesis by (meson rtrancl.rtrancl_into_rtrancl)
  qed
qed

lemma is_square01I:
  assumes "sqK m (length m)"
    and "\<And>i j. i < length m \<Longrightarrow> j < length m \<Longrightarrow> m ! i ! j = 0 \<or> m ! i ! j = 1"
  shows "is_square01 m"
  unfolding is_square01_def
proof (intro ballI conjI)
  fix row assume "row \<in> set m"
  then obtain i where i: "i < length m" "row = m ! i" by (metis in_set_conv_nth)
  then show l: "length row = length m" using assms(1) by (simp add: sqK_def)
  fix x assume "x \<in> set row"
  then obtain j where j: "j < length row" "x = row ! j" by (metis in_set_conv_nth)
  with l i assms(2)[of i j] show "x = 0 \<or> x = 1" by simp
qed

lemma is_square01_reattached:
  assumes "is_square01 a"
  shows "is_square01 (reattached a A B)"
proof (rule is_square01I)
  have len: "length (reattached a A B) = length a" by (simp add: reattached_def)
  show "sqK (reattached a A B) (length (reattached a A B))"
    unfolding len by (rule sqK_reattached)
  fix i j assume "i < length (reattached a A B)" "j < length (reattached a A B)"
  then have ij: "i < length a" "j < length a" using len by simp_all
  from is_square01_entry[OF assms ij]
  show "reattached a A B ! i ! j = 0 \<or> reattached a A B ! i ! j = 1"
    unfolding reattached_nth[OF ij] by auto
qed

lemma reattached_is_tree:
  assumes t: "is_tree a" and A: "A < length a" and B: "B < length a" "0 < B" and AB: "A \<noteq> B"
    and nanc: "(B, A) \<notin> (edges a)\<^sup>+"
  shows "is_tree (reattached a A B)"
proof -
  let ?E = "edges a" and ?a' = "reattached a A B"
  let ?F = "{(i, j). (i, j) \<in> ?E \<and> j \<noteq> B}"
  have sq: "is_square01 a" and K: "0 < length a"
    and root: "\<forall>i. (i, 0) \<notin> ?E"
    and up: "\<forall>i i' j. (i, j) \<in> ?E \<longrightarrow> (i', j) \<in> ?E \<longrightarrow> i = i'"
    and reach: "\<forall>j < length a. (0, j) \<in> ?E\<^sup>*"
    using t by (auto simp: is_tree_def)
  have E': "edges ?a' = ?F \<union> {(A, B)}" by (rule edges_reattached[OF sq A B(1) AB])
  have len: "length ?a' = length a" by (simp add: reattached_def)
  have FE': "?F\<^sup>* \<subseteq> (edges ?a')\<^sup>*" unfolding E' by (intro rtrancl_mono) blast
  have FE: "?F\<^sup>* \<subseteq> ?E\<^sup>*" by (intro rtrancl_mono) blast
  have nBA: "(B, A) \<notin> ?F\<^sup>*"
  proof
    assume "(B, A) \<in> ?F\<^sup>*"
    with FE have "(B, A) \<in> ?E\<^sup>*" by blast
    with AB have "(B, A) \<in> ?E\<^sup>+" by (metis rtranclD)
    with nanc show False by simp
  qed
  have rA: "(0, A) \<in> (edges ?a')\<^sup>*"
    using path_avoiding[of 0 A ?E B] reach A nBA FE' by blast
  have rB: "(0, B) \<in> (edges ?a')\<^sup>*"
  proof -
    have "(A, B) \<in> edges ?a'" unfolding E' by simp
    with rA show ?thesis by (rule rtrancl_into_rtrancl)
  qed
  have r: "\<forall>j < length ?a'. (0, j) \<in> (edges ?a')\<^sup>*"
  proof (intro allI impI)
    fix j assume "j < length ?a'"
    then have "(0, j) \<in> ?E\<^sup>*" using reach len by simp
    from path_avoiding[OF this, of B]
    show "(0, j) \<in> (edges ?a')\<^sup>*"
    proof
      assume "(0, j) \<in> ?F\<^sup>*"
      with FE' show ?thesis by blast
    next
      assume "(B, j) \<in> ?F\<^sup>*"
      with FE' have "(B, j) \<in> (edges ?a')\<^sup>*" by blast
      with rB show ?thesis by (rule rtrancl_trans)
    qed
  qed
  have d: "\<forall>i < length ?a'. ?a' ! i ! i = 1"
    by (simp add: len reattached_nth)
  have root': "\<forall>i. (i, 0) \<notin> edges ?a'"
    unfolding E' using root B(2) by auto
  have up': "\<forall>i i' j. (i, j) \<in> edges ?a' \<longrightarrow> (i', j) \<in> edges ?a' \<longrightarrow> i = i'"
    unfolding E' using up by auto
  show ?thesis
    unfolding is_tree_def
    using K len is_square01_reattached[OF sq] d root' up' r by simp
qed

subsection \<open>Swapping two nodes keeps the tree\<close>

lemma swap_nodes_involution: "swap_nodes A B (swap_nodes A B i) = i"
  by (simp add: swap_nodes_def)

lemma swap_nodes_bound: "A < K \<Longrightarrow> B < K \<Longrightarrow> i < K \<Longrightarrow> swap_nodes A B i < K"
  by (simp add: swap_nodes_def)

lemma swap_nodes_inj: "swap_nodes A B i = swap_nodes A B j \<Longrightarrow> i = j"
  by (metis swap_nodes_involution)

lemma edges_relabelled:
  assumes "A < length a" and "B < length a"
  shows "edges (relabelled a A B) = {(i, j). (swap_nodes A B i, swap_nodes A B j) \<in> edges a}"
proof -
  have len: "length (relabelled a A B) = length a" by (simp add: relabelled_def)
  have b: "\<And>i. (swap_nodes A B i < length a) = (i < length a)"
    using assms by (auto simp: swap_nodes_def)
  have n: "\<And>i j. (swap_nodes A B i = swap_nodes A B j) = (i = j)"
    using swap_nodes_inj by blast
  show ?thesis
    unfolding edges_def len by (auto simp: relabelled_nth b n)
qed

lemma relabelled_path:
  assumes inv: "\<forall>i. s (s i) = i" and "(x, y) \<in> E\<^sup>*"
  shows "(s x, s y) \<in> {(i, j). (s i, s j) \<in> E}\<^sup>*"
  using assms(2)
proof (induction rule: rtrancl_induct)
  case base
  then show ?case by simp
next
  case (step y z)
  have "(s y, s z) \<in> {(i, j). (s i, s j) \<in> E}" using step.hyps(2) inv by simp
  with step.IH show ?case by (rule rtrancl_into_rtrancl)
qed

lemma is_square01_relabelled:
  assumes "is_square01 a" and "A < length a" and "B < length a"
  shows "is_square01 (relabelled a A B)"
proof (rule is_square01I)
  have len: "length (relabelled a A B) = length a" by (simp add: relabelled_def)
  show "sqK (relabelled a A B) (length (relabelled a A B))"
    unfolding len by (rule sqK_relabelled)
  fix i j assume "i < length (relabelled a A B)" "j < length (relabelled a A B)"
  then have ij: "i < length a" "j < length a" using len by simp_all
  have "swap_nodes A B i < length a" "swap_nodes A B j < length a"
    using swap_nodes_bound[OF assms(2,3)] ij by simp_all
  from is_square01_entry[OF assms(1) this]
  show "relabelled a A B ! i ! j = 0 \<or> relabelled a A B ! i ! j = 1"
    unfolding relabelled_nth[OF ij] .
qed

lemma relabelled_is_tree:
  assumes t: "is_tree a" and A: "A < length a" "0 < A" and B: "B < length a" "0 < B"
  shows "is_tree (relabelled a A B)"
proof -
  let ?E = "edges a" and ?a' = "relabelled a A B" and ?s = "swap_nodes A B"
  have sq: "is_square01 a" and K: "0 < length a" and dg: "\<forall>i < length a. a ! i ! i = 1"
    and root: "\<forall>i. (i, 0) \<notin> ?E"
    and up: "\<forall>i i' j. (i, j) \<in> ?E \<longrightarrow> (i', j) \<in> ?E \<longrightarrow> i = i'"
    and reach: "\<forall>j < length a. (0, j) \<in> ?E\<^sup>*"
    using t by (auto simp: is_tree_def)
  have E': "edges ?a' = {(i, j). (?s i, ?s j) \<in> ?E}" by (rule edges_relabelled[OF A(1) B(1)])
  have len: "length ?a' = length a" by (simp add: relabelled_def)
  have s0: "?s 0 = 0" using A(2) B(2) by (simp add: swap_nodes_def)
  have d: "\<forall>i < length ?a'. ?a' ! i ! i = 1"
    using dg swap_nodes_bound[OF A(1) B(1)] by (simp add: len relabelled_nth)
  have root': "\<forall>i. (i, 0) \<notin> edges ?a'"
    unfolding E' using root s0 by simp
  have up': "\<forall>i i' j. (i, j) \<in> edges ?a' \<longrightarrow> (i', j) \<in> edges ?a' \<longrightarrow> i = i'"
  proof (intro allI impI)
    fix i i' j assume "(i, j) \<in> edges ?a'" "(i', j) \<in> edges ?a'"
    then have "(?s i, ?s j) \<in> ?E" "(?s i', ?s j) \<in> ?E" unfolding E' by simp_all
    with up have "?s i = ?s i'" by blast
    then show "i = i'" by (rule swap_nodes_inj)
  qed
  have r: "\<forall>j < length ?a'. (0, j) \<in> (edges ?a')\<^sup>*"
  proof (intro allI impI)
    fix j assume "j < length ?a'"
    then have "?s j < length a" using swap_nodes_bound[OF A(1) B(1)] len by simp
    with reach have "(0, ?s j) \<in> ?E\<^sup>*" by simp
    have "\<forall>i. ?s (?s i) = i" by (simp add: swap_nodes_involution)
    from relabelled_path[OF this \<open>(0, ?s j) \<in> ?E\<^sup>*\<close>]
    show "(0, j) \<in> (edges ?a')\<^sup>*" unfolding E' by (simp add: s0 swap_nodes_involution)
  qed
  show ?thesis
    unfolding is_tree_def
    using K len is_square01_relabelled[OF sq A(1) B(1)] d root' up' r by simp
qed

lemma sum_all_sum_axis0:
  assumes "sqK a K"
  shows "sum_all a = sum_list (sum_axis0 a)"
proof (cases "K = 0")
  case True
  with assms have "a = []" by (simp add: sqK_def)
  then show ?thesis by (simp add: sum_all_def sum_axis0_def ncols_def)
next
  case False
  have len: "length a = K" and row: "\<And>i. i < K \<Longrightarrow> length (a ! i) = K"
    using assms by (simp_all add: sqK_def)
  obtain r rs where "a = r # rs" using False len by (cases a) auto
  then have "ncols a = length (a ! 0)" by (simp add: ncols_def)
  with row[of 0] False have nc: "ncols a = K" by simp
  have "sum_all a = (\<Sum>i = 0..<K. sum_list (a ! i))"
    by (simp add: sum_all_def sum_list_sum_nth len)
  also have "\<dots> = (\<Sum>i = 0..<K. \<Sum>j = 0..<K. a ! i ! j)"
    by (rule sum.cong) (simp_all add: sum_list_sum_nth row)
  also have "\<dots> = (\<Sum>j = 0..<K. \<Sum>i = 0..<K. a ! i ! j)"
    by (rule sum.swap)
  also have "\<dots> = (\<Sum>j = 0..<K. sum_list (column a j))"
    by (rule sum.cong) (simp_all add: sum_list_sum_nth column_def len)
  also have "\<dots> = sum_list (sum_axis0 a)"
    by (simp add: sum_axis0_def nc sum_list_sum_nth)
  finally show ?thesis .
qed

lemma is_tree_sum_all:
  assumes "is_tree a"
  shows "sum_all a = int (length a) + (int (length a) - 1)"
proof -
  have sq: "is_square01 a" and K: "0 < length a" using assms by (auto simp: is_tree_def)
  have "sum_all a = sum_list (sum_axis0 a)"
    by (rule sum_all_sum_axis0[OF sqK_of_square01[OF sq]])
  also have "\<dots> = 1 + 2 * int (length a - 1)"
    unfolding is_tree_column_sums[OF assms] by (simp add: sum_list_replicate)
  finally show ?thesis using K by (simp add: of_nat_diff)
qed

lemma ncols_fill_diagonal:
  assumes "sqK z K" and "0 < K"
  shows "ncols (fill_diagonal z v) = K"
proof -
  have s: "sqK (fill_diagonal z v) K" by (rule sqK_fill_diagonal[OF assms(1)])
  then obtain r rs where e: "fill_diagonal z v = r # rs"
    using assms(2) by (cases "fill_diagonal z v") (auto simp: sqK_def)
  then have "ncols (fill_diagonal z v) = length (fill_diagonal z v ! 0)" by (simp add: ncols_def)
  with s assms(2) show ?thesis by (simp add: sqK_def)
qed

lemma modify_tree_result_tree:
  assumes t: "is_tree a" and z: "is_ancestry_of a z"
    and A: "A < length a" and B: "0 < B" "B < length a" and AB: "A \<noteq> B"
  shows "modify_tree_result a z A B
           = Inr (if (B, A) \<in> (edges a)\<^sup>+ then relabelled a A B else reattached a A B)"
    and "is_tree (if (B, A) \<in> (edges a)\<^sup>+ then relabelled a A B else reattached a A B)"
proof -
  let ?K = "length a" and ?E = "edges a"
  have inv: "adjacency_invariants a" using t by (rule is_tree_adjacency_invariants)
  have sq: "is_square01 a" and K: "0 < ?K" and dg: "\<forall>i < ?K. a ! i ! i = 1"
    and root: "\<forall>i. (i, 0) \<notin> ?E"
    using t by (auto simp: is_tree_def)
  have sa: "sqK a ?K" by (rule sqK_of_square01[OF sq])
  have nd: "np_diag a = replicate ?K 1" and cs: "sort (sum_axis0 a) = 1 # replicate (?K - 1) 2"
    using inv by (auto simp: adjacency_invariants_def)
  have su: "sum_all a = int ?K + (int ?K - 1)" by (rule is_tree_sum_all[OF t])
  have sz: "sqK z ?K" using z by (simp add: is_ancestry_of_def sqK_def)
  have zn: "\<And>i j. i < ?K \<Longrightarrow> j < ?K \<Longrightarrow>
              z ! i ! j = (if i = j \<or> (i, j) \<in> ?E\<^sup>+ then 1 else 0)"
    using z by (simp add: is_ancestry_of_def)
  let ?a1 = "fill_diagonal a 0" and ?z1 = "fill_diagonal z 0"
  have lz: "length ?z1 = ?K" by (simp add: length_fill_diagonal) (use sz in \<open>simp add: sqK_def\<close>)
  have nz: "ncols ?z1 = ?K" by (rule ncols_fill_diagonal[OF sz K])
  have zBA: "?z1 ! B ! A = (if (B, A) \<in> ?E\<^sup>+ then 1 else 0)"
    using sqK_fill_diagonal_nth[OF sz B(2) A, of 0] zn[OF B(2) A] AB by simp
  have zAB: "?z1 ! A ! B = (if (A, B) \<in> ?E\<^sup>+ then 1 else 0)"
    using sqK_fill_diagonal_nth[OF sz A B(2), of 0] zn[OF A B(2)] AB by simp
  have aAB: "?a1 ! A ! B = a ! A ! B"
    using sqK_fill_diagonal_nth[OF sa A B(2), of 0] AB by simp
  have e01: "\<forall>i < ?K. \<forall>j < ?K. a ! i ! j = 0 \<or> a ! i ! j = 1"
    using is_square01_entry[OF sq] by blast
  show "modify_tree_result a z A B
           = Inr (if (B, A) \<in> ?E\<^sup>+ then relabelled a A B else reattached a A B)"
  proof (cases "(B, A) \<in> ?E\<^sup>+")
    case True
    have nAB: "(A, B) \<notin> ?E\<^sup>+"
    proof
      assume "(A, B) \<in> ?E\<^sup>+"
      from this True have "(A, A) \<in> ?E\<^sup>+" by (rule trancl_trans)
      with is_tree_acyclic[OF t] show False by blast
    qed
    then have "(A, B) \<notin> ?E" by blast
    then have "a ! A ! B \<noteq> 1" using A B(2) AB by (simp add: edges_def)
    with e01 A B(2) have a0: "a ! A ! B = 0" by blast
    note sb = swap_branch[OF sa A B(2) AB dg a0 e01]
    show ?thesis
      unfolding modify_tree_result_def
      using True A B AB nd su cs lz nz zBA zAB nAB aAB a0 sb
      by (simp add: Let_def)
  next
    case False
    note mb = move_branch[OF sa A B(2)]
    show ?thesis
      unfolding modify_tree_result_def
      using False A B AB nd su cs lz nz zBA mb
      by (simp add: Let_def)
  qed
  show "is_tree (if (B, A) \<in> ?E\<^sup>+ then relabelled a A B else reattached a A B)"
  proof (cases "(B, A) \<in> ?E\<^sup>+")
    case True
    then obtain p where "(p, A) \<in> ?E" by (meson tranclE)
    have "A \<noteq> 0"
    proof
      assume "A = 0"
      with \<open>(p, A) \<in> ?E\<close> have "(p, 0) \<in> ?E" by simp
      with root show False by simp
    qed
    then have "0 < A" by simp
    from relabelled_is_tree[OF t A this B(2) B(1)] True show ?thesis by simp
  next
    case False
    from reattached_is_tree[OF t A B(2) B(1) AB False] False show ?thesis by simp
  qed
qed

lemma modify_tree_value:
  "modify_tree a z A B = modify_tree_result a z A B"
proof -
  let ?h = "\<lparr>cells = [0 \<mapsto> a, 1 \<mapsto> z], fresh = 2\<rparr>"
  have "modify_tree_store ?h 0 1 A B =
           (case modify_tree_result a z A B of
              Inl e \<Rightarrow> Inl e
            | Inr r \<Rightarrow>
                Inr (fresh ?h,
                     ?h\<lparr>cells := (cells ?h)(fresh ?h \<mapsto> r, Suc (fresh ?h) \<mapsto> fill_diagonal z 0),
                       fresh := Suc (Suc (fresh ?h))\<rparr>))"
    by (rule modify_tree_store_result) simp_all
  then show ?thesis
    by (simp add: modify_tree_def deref_def split: sum.splits)
qed

lemma ancestry_unique:
  assumes "is_ancestry_of a z"
  shows "z = closure_matrix a"
proof -
  have s1: "sqK z (length a)" using assms by (simp add: is_ancestry_of_def sqK_def)
  have s2: "sqK (closure_matrix a) (length a)"
    using closure_matrix_ancestry[of a] by (simp add: is_ancestry_of_def sqK_def)
  show ?thesis
    by (rule sqK_eqI[OF s1 s2])
       (use assms closure_matrix_ancestry[of a] in \<open>simp add: is_ancestry_of_def\<close>)
qed

text \<open>
  Claim C2. Take a matrix with the adjacency invariants, its ancestry matrix, and nodes
  \<open>A \<noteq> B\<close> with \<open>A < K\<close> and \<open>0 < B < K\<close>; let the two arrays sit in a store at
  \<open>adj_ref\<close> and \<open>anc_ref\<close>. Then \<open>_modify_tree\<close> returns a reference to a new array
  that has the adjacency invariants again (square 0/1 matrix, unit diagonal, sorted
  column sums one 1 followed by 2s, traversal from the root visiting every node once),
  and every cell the store had before the call, the two arguments among them, holds
  what it held before.
\<close>

theorem modify_tree_keeps_invariants:
  assumes "adjacency_invariants a" and "is_ancestry_of a z"
    and "A < length a" and "0 < B" and "B < length a" and "A \<noteq> B"
    and "cells h adj_ref = Some a" and "cells h anc_ref = Some z"
    and "adj_ref < fresh h" and "anc_ref < fresh h"
  shows "\<exists>r h'. modify_tree_store h adj_ref anc_ref A B = Inr (r, h')
           \<and> adjacency_invariants (deref h' r)
           \<and> length (deref h' r) = length a
           \<and> r \<noteq> adj_ref \<and> r \<noteq> anc_ref
           \<and> cells h' adj_ref = Some a \<and> cells h' anc_ref = Some z
           \<and> (\<forall>r' < fresh h. cells h' r' = cells h r')
           \<and> modify_tree a z A B = Inr (deref h' r)"
proof -
  let ?res = "if (B, A) \<in> (edges a)\<^sup>+ then relabelled a A B else reattached a A B"
  have t: "is_tree a" using assms(1) by (rule adjacency_invariants_is_tree)
  note m = modify_tree_result_tree[OF t assms(2-6)]
  let ?h' = "h\<lparr>cells := (cells h)(fresh h \<mapsto> ?res, Suc (fresh h) \<mapsto> fill_diagonal z 0),
                 fresh := Suc (Suc (fresh h))\<rparr>"
  have st: "modify_tree_store h adj_ref anc_ref A B = Inr (fresh h, ?h')"
    using modify_tree_store_result[OF assms(7-10), of A B] m(1) by simp
  have dr: "deref ?h' (fresh h) = ?res" by (simp add: deref_def)
  have inv: "adjacency_invariants (deref ?h' (fresh h))"
    unfolding dr by (rule is_tree_adjacency_invariants[OF m(2)])
  have len: "length (deref ?h' (fresh h)) = length a"
    unfolding dr by (simp add: relabelled_def reattached_def)
  have keep: "\<forall>r' < fresh h. cells ?h' r' = cells h r'" by simp
  have ne: "fresh h \<noteq> adj_ref" "fresh h \<noteq> anc_ref" using assms(9,10) by simp_all
  have k1: "cells ?h' adj_ref = Some a" "cells ?h' anc_ref = Some z"
    using keep assms(7-10) by simp_all
  have v: "modify_tree a z A B = Inr (deref ?h' (fresh h))"
    unfolding dr modify_tree_value by (rule m(1))
  show ?thesis
    using st inv len ne k1 keep v by blast
qed

theorem modify_tree_keeps_invariants_witness:
  "adjacency_invariants [[1, 1, 0], [0, 1, 1], [0, 0, 1]]
   \<and> is_ancestry_of [[1, 1, 0], [0, 1, 1], [0, 0, 1]] [[1, 1, 1], [0, 1, 1], [0, 0, 1]]
   \<and> (\<exists>r h'. modify_tree_store
                \<lparr>cells = [0 \<mapsto> [[1, 1, 0], [0, 1, 1], [0, 0, 1]],
                          1 \<mapsto> [[1, 1, 1], [0, 1, 1], [0, 0, 1]]], fresh = 2\<rparr> 0 1 2 1
                = Inr (r, h')
        \<and> adjacency_invariants (deref h' r)
        \<and> cells h' 0 = Some [[1, 1, 0], [0, 1, 1], [0, 0, 1]]
        \<and> cells h' 1 = Some [[1, 1, 1], [0, 1, 1], [0, 0, 1]]
        \<and> Inr (deref h' r) = (Inr [[1, 0, 1], [0, 1, 0], [0, 1, 1]] :: error + matrix))"
proof -
  let ?a = "[[1, 1, 0], [0, 1, 1], [0, 0, 1]] :: matrix"
  let ?z = "[[1, 1, 1], [0, 1, 1], [0, 0, 1]] :: matrix"
  let ?h = "\<lparr>cells = [0 \<mapsto> ?a, 1 \<mapsto> ?z], fresh = 2\<rparr>"
  have inv: "adjacency_invariants ?a" by code_simp
  have "make_ancestral_from_adj 3 ?a = Inr ?z" by code_simp
  moreover have "make_ancestral_from_adj 3 ?a = Inr (closure_matrix ?a)"
    by (rule make_ancestral_tree[OF adjacency_invariants_is_tree[OF inv]]) simp
  ultimately have "closure_matrix ?a = ?z" by simp
  with closure_matrix_ancestry[of ?a] have anc: "is_ancestry_of ?a ?z" by simp
  have ev: "modify_tree ?a ?z 2 1 = Inr [[1, 0, 1], [0, 1, 0], [0, 1, 1]]" by code_simp
  have "\<exists>r h'. modify_tree_store ?h 0 1 2 1 = Inr (r, h')
           \<and> adjacency_invariants (deref h' r)
           \<and> length (deref h' r) = length ?a
           \<and> r \<noteq> 0 \<and> r \<noteq> 1
           \<and> cells h' 0 = Some ?a \<and> cells h' 1 = Some ?z
           \<and> (\<forall>r' < fresh ?h. cells h' r' = cells ?h r')
           \<and> modify_tree ?a ?z 2 1 = Inr (deref h' r)"
    by (rule modify_tree_keeps_invariants[OF inv anc]) simp_all
  then obtain r h' where
    "modify_tree_store ?h 0 1 2 1 = Inr (r, h')" "adjacency_invariants (deref h' r)"
    "cells h' 0 = Some ?a" "cells h' 1 = Some ?z" "modify_tree ?a ?z 2 1 = Inr (deref h' r)"
    by blast
  with ev inv anc show ?thesis by auto
qed

end
